theory Spec2Isabelle
  imports Complex_Main "HOL-Library.Multiset" "HOL-Library.Product_Lexorder" "HOL-Library.AList"
begin

section \<open>Data model\<close>

text \<open>
  A JavaScript number is a double; the finite doubles are real numbers and are modelled as
  such (NaN and the infinities are left out). Comparisons of doubles are exact. A
  subtraction is rounded, so the subtraction the program performs is not the subtraction of
  the reals: it is a parameter \<open>fsub\<close> of the definitions that decide on, or store, a
  difference of timestamps (\<^verbatim>\<open>mergeSilences\<close>, the cap, \<^verbatim>\<open>detectSilences\<close> and what
  calls them), and a property proved for every \<open>fsub\<close> holds of the program whatever the
  rounding gives. The closed examples take the exact subtraction for \<open>fsub\<close> on operands
  that are integers or halves: their differences are doubles, so the program computes the
  same values.
  Strings are lists of bytes; the accented letters of the French messages are written as
  their UTF-8 bytes.
\<close>

type_synonym subtraction = "real \<Rightarrow> real \<Rightarrow> real"

text \<open>
  Two facts about the subtraction of finite doubles that does not overflow, used as
  hypotheses where a property needs them. The result is zero only for equal operands and
  has the sign of the exact difference, since the exact difference of two doubles is a
  multiple of the smallest positive double and rounding keeps the sign (\<open>sign_exact\<close>).
  Rounding is monotone, so the result does not decrease when the first operand
  grows (\<open>increasing\<close>). It may stay the same: \<open>strictly_increasing\<close> holds of the exact
  subtraction, and of the rounded one only where the two results are not rounded together.
\<close>

definition sign_exact :: "subtraction \<Rightarrow> bool" where
  "sign_exact fsub \<longleftrightarrow> (\<forall>x y. (fsub x y \<le> 0) = (x \<le> y))"

definition increasing :: "subtraction \<Rightarrow> bool" where
  "increasing fsub \<longleftrightarrow> (\<forall>x y z. x \<le> y \<longrightarrow> fsub x z \<le> fsub y z)"

definition strictly_increasing :: "subtraction \<Rightarrow> bool" where
  "strictly_increasing fsub \<longleftrightarrow> (\<forall>x y z. x < y \<longrightarrow> fsub x z < fsub y z)"

text \<open>The interface \<^verbatim>\<open>SilenceInterval\<close>: the field \<^verbatim>\<open>end\<close> is written \<open>end'\<close>.\<close>

record SilenceInterval =
  start :: real
  end' :: real
  duration :: real

text \<open>The anonymous object type \<^verbatim>\<open>{ start: number; end: number }\<close> of a keep segment.\<close>

type_synonym segment = "real \<times> real"

text \<open>
  \<^verbatim>\<open>VideoMetadata\<close> and \<^verbatim>\<open>ProcessingResult\<close>. The fields \<^verbatim>\<open>duration\<close> and
  \<^verbatim>\<open>size\<close> of the metadata are written \<open>media_duration\<close> and \<open>file_size\<close>.
\<close>

record VideoMetadata =
  media_duration :: real
  codec :: string
  resolution :: "nat \<times> nat"
  bitrate :: int
  file_size :: int

record ProcessingResult =
  outputPath :: string
  originalDuration :: real
  finalDuration :: real
  timeSaved :: real
  percentageSaved :: real
  silencesRemoved :: nat

text \<open>
  \<^verbatim>\<open>Job\<close>: the fields \<^verbatim>\<open>id\<close> and \<^verbatim>\<open>outputPath\<close> are written \<open>job_id\<close> and
  \<open>job_outputPath\<close>; dates are millisecond timestamps.
\<close>

datatype job_status = Queued | Processing | Completed | Failed

record Job =
  job_id :: string
  videoId :: string
  inputPath :: string
  job_outputPath :: string
  status :: job_status
  progress :: nat
  error :: "string option"
  result :: "ProcessingResult option"
  createdAt :: int
  updatedAt :: int
  retries :: nat

section \<open>Interval processing (video processing service)\<close>

subsection \<open>mergeSilences\<close>

text \<open>
  The loop of \<^verbatim>\<open>mergeSilences\<close>: \<open>merged\<close> is the array built so far, \<open>current\<close> the
  copy being extended, and the last argument holds \<^verbatim>\<open>silences[i..]\<close>, the intervals still
  to visit. Only the field \<^verbatim>\<open>end\<close> of \<open>current\<close> is ever assigned.
\<close>

fun merge_loop :: "subtraction \<Rightarrow> real \<Rightarrow> SilenceInterval list \<Rightarrow> SilenceInterval \<Rightarrow> SilenceInterval list
    \<Rightarrow> SilenceInterval list" where
  "merge_loop fsub minGap merged current [] = merged @ [current]"
| "merge_loop fsub minGap merged current (next # rest) =
     (let gap = fsub (start next) (end' current) in
      if gap < minGap
      then merge_loop fsub minGap merged (current\<lparr>end' := end' next\<rparr>) rest
      else merge_loop fsub minGap (merged @ [current]) next rest)"

definition mergeSilences :: "subtraction \<Rightarrow> SilenceInterval list \<Rightarrow> real \<Rightarrow> SilenceInterval list" where
  "mergeSilences fsub silences minGap =
     (case silences of
        [] \<Rightarrow> silences
      | first # rest \<Rightarrow> merge_loop fsub minGap [] first rest)"

text \<open>
  The reading of the specification, to be compared with the loop: the input is cut into its
  maximal runs of consecutive intervals whose gaps are all below \<open>minGap\<close>, and every run is
  replaced by one interval from the start of its first member to the end of its last. The
  gap between two neighbours is the difference \<^verbatim>\<open>next.start - current.end\<close> as the program
  computes it.
\<close>

fun runs :: "subtraction \<Rightarrow> real \<Rightarrow> SilenceInterval list \<Rightarrow> SilenceInterval list list" where
  "runs fsub minGap [] = []"
| "runs fsub minGap [x] = [[x]]"
| "runs fsub minGap (x # y # zs) =
     (if fsub (start y) (end' x) < minGap
      then (case runs fsub minGap (y # zs) of [] \<Rightarrow> [[x]] | r # rs \<Rightarrow> (x # r) # rs)
      else [x] # runs fsub minGap (y # zs))"

definition coalesce :: "SilenceInterval list \<Rightarrow> SilenceInterval" where
  "coalesce r = (hd r)\<lparr>end' := end' (last r)\<rparr>"

text \<open>
  Silence lists: ordered by start; without overlaps, that is, every interval ends no later
  than each later interval starts; and the total duration a list covers.
\<close>

definition ordered_by_start :: "SilenceInterval list \<Rightarrow> bool" where
  "ordered_by_start xs = sorted (map start xs)"

definition non_overlapping :: "SilenceInterval list \<Rightarrow> bool" where
  "non_overlapping xs = sorted_wrt (\<lambda>a b. end' a \<le> start b) xs"

definition total_duration :: "SilenceInterval list \<Rightarrow> real" where
  "total_duration xs = (\<Sum>x\<leftarrow>xs. end' x - start x)"

text \<open>
  Intervals as \<^verbatim>\<open>detectSilences\<close> records them from well-paired markers: a non-empty
  range whose duration field is the difference \<^verbatim>\<open>ends[i] - starts[i]\<close> it computed.
\<close>

definition recorded_durations :: "subtraction \<Rightarrow> SilenceInterval list \<Rightarrow> bool" where
  "recorded_durations fsub xs \<longleftrightarrow> (\<forall>x \<in> set xs. duration x = fsub (end' x) (start x) \<and> start x < end' x)"

text \<open>
  The same loop without the accumulator, used in the proofs (see \<open>merge_loop_from\<close>).
\<close>

fun merge_from :: "subtraction \<Rightarrow> real \<Rightarrow> SilenceInterval \<Rightarrow> SilenceInterval list \<Rightarrow> SilenceInterval list" where
  "merge_from fsub g c [] = [c]"
| "merge_from fsub g c (n # rest) =
     (if fsub (start n) (end' c) < g then merge_from fsub g (c\<lparr>end' := end' n\<rparr>) rest
      else c # merge_from fsub g n rest)"

subsection \<open>The cap on the number of silences (inside processNext)\<close>

text \<open>
  \<^verbatim>\<open>Array.prototype.sort\<close> with a comparator is a stable sort: an element goes before the
  first element it does not compare greater than. For a comparator that is a total preorder
  every stable sort returns the list computed here.
\<close>

fun insert_cmp :: "('a \<Rightarrow> 'a \<Rightarrow> real) \<Rightarrow> 'a \<Rightarrow> 'a list \<Rightarrow> 'a list" where
  "insert_cmp cmp x [] = [x]"
| "insert_cmp cmp x (y # ys) = (if cmp x y \<le> 0 then x # y # ys else y # insert_cmp cmp x ys)"

definition js_sort :: "('a \<Rightarrow> 'a \<Rightarrow> real) \<Rightarrow> 'a list \<Rightarrow> 'a list" where
  "js_sort cmp xs = foldr (insert_cmp cmp) xs []"

text \<open>
  Lines 92 to 96 of \<^verbatim>\<open>processNext\<close>: sort by \<^verbatim>\<open>end - start\<close> descending, keep the first
  ten, sort again by start. Each comparator is written with its own subtractions.
\<close>

definition limitSilences :: "subtraction \<Rightarrow> SilenceInterval list \<Rightarrow> SilenceInterval list" where
  "limitSilences fsub silences =
     (if length silences > 10
      then js_sort (\<lambda>a b. fsub (start a) (start b))
             (take 10 (js_sort (\<lambda>a b. fsub (fsub (end' b) (start b)) (fsub (end' a) (start a))) silences))
      else silences)"

text \<open>
  The reading of the specification: the \<open>limit\<close> intervals of greatest duration, ties broken
  by earliest start, re-sorted by start. \<open>preferred a b\<close> says that the selection ranks \<open>a\<close>
  strictly before \<open>b\<close>. The duration of an interval is the difference \<^verbatim>\<open>end - start\<close> as
  the program computes it.
\<close>

definition cap_spec :: "subtraction \<Rightarrow> nat \<Rightarrow> SilenceInterval list \<Rightarrow> SilenceInterval list" where
  "cap_spec fsub limit silences =
     (if length silences \<le> limit then silences
      else sort_key start
             (take limit (sort_key (\<lambda>x. (- fsub (end' x) (start x), start x)) silences)))"

definition preferred :: "subtraction \<Rightarrow> SilenceInterval \<Rightarrow> SilenceInterval \<Rightarrow> bool" where
  "preferred fsub a b \<longleftrightarrow>
     fsub (end' a) (start a) > fsub (end' b) (start b)
     \<or> (fsub (end' a) (start a) = fsub (end' b) (start b) \<and> start a < start b)"

subsection \<open>buildKeepSegments\<close>

text \<open>
  The \<^verbatim>\<open>for ... of\<close> loop over the silences, with the array \<open>segments\<close> and the variable
  \<open>currentStart\<close> as loop state, followed by the final segment.
\<close>

fun keep_loop :: "SilenceInterval list \<Rightarrow> segment list \<Rightarrow> real \<Rightarrow> segment list \<times> real" where
  "keep_loop [] segments currentStart = (segments, currentStart)"
| "keep_loop (silence # rest) segments currentStart =
     keep_loop rest
       (if start silence > currentStart then segments @ [(currentStart, start silence)] else segments)
       (end' silence)"

definition buildKeepSegments :: "SilenceInterval list \<Rightarrow> real \<Rightarrow> segment list" where
  "buildKeepSegments silences totalDuration =
     (case keep_loop silences [] 0 of (segments, currentStart) \<Rightarrow>
        if currentStart < totalDuration then segments @ [(currentStart, totalDuration)]
        else segments)"

text \<open>
  The half-open ranges of time that a keep segment and a silence stand for, and silences
  that lie within \<open>[0, D)\<close>.
\<close>

definition seg_range :: "segment \<Rightarrow> real set" where
  "seg_range k = {fst k ..< snd k}"

definition silence_range :: "SilenceInterval \<Rightarrow> real set" where
  "silence_range x = {start x ..< end' x}"

definition within_duration :: "real \<Rightarrow> SilenceInterval list \<Rightarrow> bool" where
  "within_duration D xs \<longleftrightarrow> (\<forall>x \<in> set xs. 0 \<le> start x \<and> start x \<le> end' x \<and> end' x \<le> D)"

text \<open>The same computation without the accumulator, used in the proofs.\<close>

fun keep_from :: "real \<Rightarrow> real \<Rightarrow> SilenceInterval list \<Rightarrow> segment list" where
  "keep_from c D [] = (if c < D then [(c, D)] else [])"
| "keep_from c D (x # xs) =
     (if start x > c then (c, start x) # keep_from (end' x) D xs else keep_from (end' x) D xs)"

subsection \<open>removeSilences\<close>

text \<open>
  The external programs are not modelled: \<open>engine_outcomes\<close> holds what each of them
  answers when \<^verbatim>\<open>removeSilences\<close> calls it (\<^verbatim>\<open>getVideoMetadata\<close> on the input,
  \<^verbatim>\<open>copyFile\<close>, the transcoding \<^verbatim>\<open>ffmpeg\<close> process, \<^verbatim>\<open>getVideoMetadata\<close> on the
  output), a rejection being \<open>Inl\<close> of its message. The function returns the commands it
  issued, in order, and the value the promise settles with. The filter string of
  \<^verbatim>\<open>buildFilterComplex\<close> is represented by the segment list it is built from.
\<close>

datatype command =
    Probe string
  | CopyFile string string
  | Transcode string "segment list" string

datatype process_exit = SpawnError string | Exit "int option" string

record engine_outcomes =
  input_metadata :: "string + VideoMetadata"
  copy_outcome :: "string + unit"
  transcode_outcome :: process_exit
  output_metadata :: "string + VideoMetadata"

definition copy_result :: "engine_outcomes \<Rightarrow> string \<Rightarrow> VideoMetadata \<Rightarrow> nat
    \<Rightarrow> string + ProcessingResult" where
  "copy_result io outputPath' metadata n =
     (case copy_outcome io of
        Inl e \<Rightarrow> Inl e
      | Inr _ \<Rightarrow> Inr \<lparr>outputPath = outputPath',
                      originalDuration = media_duration metadata,
                      finalDuration = media_duration metadata,
                      timeSaved = 0,
                      percentageSaved = 0,
                      silencesRemoved = n\<rparr>)"

definition removeSilences :: "engine_outcomes \<Rightarrow> string \<Rightarrow> string \<Rightarrow> SilenceInterval list
    \<Rightarrow> command list \<times> (string + ProcessingResult)" where
  "removeSilences io inputPath' outputPath' silences =
     (case input_metadata io of
        Inl e \<Rightarrow> ([Probe inputPath'], Inl e)
      | Inr metadata \<Rightarrow>
          if length silences = 0
          then ([Probe inputPath', CopyFile inputPath' outputPath'],
                copy_result io outputPath' metadata 0)
          else let segments = buildKeepSegments silences (media_duration metadata) in
            if length segments = 0
            then ([Probe inputPath', CopyFile inputPath' outputPath'],
                  copy_result io outputPath' metadata (length silences))
            else (case transcode_outcome io of
                SpawnError e \<Rightarrow> ([Probe inputPath', Transcode inputPath' segments outputPath'], Inl e)
              | Exit code stderrOutput \<Rightarrow>
                  if code \<noteq> Some 0
                  then ([Probe inputPath', Transcode inputPath' segments outputPath'],
                        Inl (''FFmpeg processing failed: '' @ stderrOutput))
                  else (case output_metadata io of
                      Inl e \<Rightarrow> ([Probe inputPath', Transcode inputPath' segments outputPath',
                                  Probe outputPath'], Inl e)
                    | Inr finalMetadata \<Rightarrow>
                        let timeSaved' = media_duration metadata - media_duration finalMetadata;
                            percentageSaved' = (timeSaved' / media_duration metadata) * 100
                        in ([Probe inputPath', Transcode inputPath' segments outputPath',
                             Probe outputPath'],
                            Inr \<lparr>outputPath = outputPath',
                                 originalDuration = media_duration metadata,
                                 finalDuration = media_duration finalMetadata,
                                 timeSaved = timeSaved',
                                 percentageSaved = percentageSaved',
                                 silencesRemoved = length silences\<rparr>))))"

section \<open>The job queue service\<close>

text \<open>
  Job objects are shared between the map \<open>jobs\<close> and the pending calls of
  \<^verbatim>\<open>processNext\<close>, which keep their object across \<^verbatim>\<open>await\<close>; they live in the store
  \<open>heap\<close> and are referred to by index. \<open>jobs\<close> is the \<^verbatim>\<open>Map\<close> in insertion order.
  A \<open>task\<close> is a call of \<^verbatim>\<open>processNext\<close> suspended at one of its two \<^verbatim>\<open>await\<close>s: in
  \<^verbatim>\<open>detectSilences\<close>, or in \<^verbatim>\<open>removeSilences\<close> with the reduced silence list.
\<close>

datatype phase = Detecting | Removing "SilenceInterval list"

record task =
  task_videoId :: string
  task_job :: nat
  task_phase :: phase

record JobQueueService =
  heap :: "Job list"
  jobs :: "(string \<times> nat) list"
  queue :: "string list"
  processing :: "string set"
  tasks :: "task list"
  maxConcurrentJobs :: int

definition initial :: "int \<Rightarrow> JobQueueService" where
  "initial c = \<lparr>heap = [], jobs = [], queue = [], processing = {}, tasks = [],
                maxConcurrentJobs = c\<rparr>"

text \<open>\<^verbatim>\<open>String.prototype.includes\<close>.\<close>

fun is_prefix :: "string \<Rightarrow> string \<Rightarrow> bool" where
  "is_prefix [] ys = True"
| "is_prefix (x # xs) [] = False"
| "is_prefix (x # xs) (y # ys) = (x = y \<and> is_prefix xs ys)"

fun str_includes :: "string \<Rightarrow> string \<Rightarrow> bool" where
  "str_includes [] sub = (sub = [])"
| "str_includes (c # cs) sub = (is_prefix sub (c # cs) \<or> str_includes cs sub)"

text \<open>The four user-facing messages of the \<^verbatim>\<open>catch\<close> block.\<close>

definition msg_memory :: string where
  "msg_memory = ''Vid'' @ [CHR 0xC3, CHR 0xA9] @ ''o trop volumineuse pour ''
     @ [CHR 0xC3, CHR 0xAA] @ ''tre trait'' @ [CHR 0xC3, CHR 0xA9] @ ''e. Essayez avec une vid''
     @ [CHR 0xC3, CHR 0xA9] @ ''o plus courte ou de r'' @ [CHR 0xC3, CHR 0xA9]
     @ ''solution inf'' @ [CHR 0xC3, CHR 0xA9] @ ''rieure.''"

definition msg_timeout :: string where
  "msg_timeout = ''Le traitement a pris trop de temps. Essayez avec une vid''
     @ [CHR 0xC3, CHR 0xA9] @ ''o plus courte.''"

definition msg_generic :: string where
  "msg_generic = ''Erreur lors du traitement de la vid'' @ [CHR 0xC3, CHR 0xA9] @ ''o. V''
     @ [CHR 0xC3, CHR 0xA9] @ ''rifiez que le fichier est valide.''"

definition msg_max_retries :: string where
  "msg_max_retries = ''Le traitement a '' @ [CHR 0xC3, CHR 0xA9] @ ''chou'' @ [CHR 0xC3, CHR 0xA9]
     @ '' apr'' @ [CHR 0xC3, CHR 0xA8] @ ''s plusieurs tentatives.''"
definition isProcessingError :: "string \<Rightarrow> bool" where
  "isProcessingError errorMessage \<longleftrightarrow>
     str_includes errorMessage ''FFmpeg'' \<or> str_includes errorMessage ''memory''
     \<or> str_includes errorMessage ''timeout'' \<or> str_includes errorMessage ''failed''
     \<or> str_includes errorMessage ''ENOMEM'' \<or> str_includes errorMessage ''killed''"

definition canAcceptNewJob :: "JobQueueService \<Rightarrow> bool" where
  "canAcceptNewJob s \<longleftrightarrow> int (card (processing s)) < maxConcurrentJobs s"

text \<open>
  \<^verbatim>\<open>processNext\<close> up to its first \<^verbatim>\<open>await\<close>. An empty \<^verbatim>\<open>videoId\<close> is falsy, so
  it is taken off the queue and dropped.
\<close>

definition processNext :: "int \<Rightarrow> JobQueueService \<Rightarrow> JobQueueService" where
  "processNext now s =
     (if \<not> canAcceptNewJob s \<or> length (queue s) = 0 then s
      else case queue s of
          [] \<Rightarrow> s
        | videoId' # rest \<Rightarrow>
            let s1 = s\<lparr>queue := rest\<rparr> in
            if videoId' = [] then s1
            else (case map_of (jobs s1) videoId' of
                None \<Rightarrow> s1
              | Some r \<Rightarrow>
                  s1\<lparr>processing := insert videoId' (processing s1),
                     heap := (heap s1)[r := (heap s1 ! r)\<lparr>status := Processing, progress := 10,
                                                         updatedAt := now\<rparr>],
                     tasks := tasks s1 @ [\<lparr>task_videoId = videoId', task_job = r,
                                            task_phase = Detecting\<rparr>]\<rparr>))"

text \<open>
  \<^verbatim>\<open>addJob\<close>; \<open>outputPath'\<close> is the answer of \<^verbatim>\<open>fileStorage.getFilePath\<close>. The job
  object returned to the caller is the one allocated at \<open>length (heap s)\<close>.
\<close>

definition addJob :: "string \<Rightarrow> string \<Rightarrow> string \<Rightarrow> int \<Rightarrow> JobQueueService \<Rightarrow> JobQueueService" where
  "addJob videoId' inputPath' outputPath' now s =
     (let job = \<lparr>job_id = videoId', videoId = videoId', inputPath = inputPath',
                 job_outputPath = outputPath', status = Queued, progress = 0, error = None,
                 result = None, createdAt = now, updatedAt = now, retries = 0\<rparr>;
          s1 = s\<lparr>heap := heap s @ [job],
                 jobs := AList.update videoId' (length (heap s)) (jobs s),
                 queue := queue s @ [videoId']\<rparr>
      in processNext now s1)"

text \<open>
  The \<^verbatim>\<open>catch\<close> and \<^verbatim>\<open>finally\<close> blocks of \<^verbatim>\<open>processNext\<close> for the task at
  position \<open>k\<close>, where \<open>errorMessage\<close> is \<^verbatim>\<open>error.message || String(error)\<close>; they run
  without interruption. The timer set in \<^verbatim>\<open>finally\<close> is the later event \<open>ProcessNext\<close>.
\<close>

definition remove_nth :: "nat \<Rightarrow> 'a list \<Rightarrow> 'a list" where
  "remove_nth k xs = take k xs @ drop (Suc k) xs"

definition pipeline_failed :: "nat \<Rightarrow> string \<Rightarrow> int \<Rightarrow> JobQueueService \<Rightarrow> JobQueueService" where
  "pipeline_failed k errorMessage now s =
     (let t = tasks s ! k; r = task_job t; job = heap s ! r in
      let (job', queue') =
        (if isProcessingError errorMessage
         then (job\<lparr>status := Failed,
                   error := Some
                     (if str_includes errorMessage ''memory'' \<or> str_includes errorMessage ''ENOMEM''
                      then msg_memory
                      else if str_includes errorMessage ''timeout'' \<or> str_includes errorMessage ''killed''
                      then msg_timeout
                      else msg_generic)\<rparr>,
               queue s)
         else if retries job < 1
         then (job\<lparr>retries := retries job + 1, status := Queued, progress := 0\<rparr>,
               queue s @ [task_videoId t])
         else (job\<lparr>status := Failed, error := Some msg_max_retries\<rparr>, queue s))
      in s\<lparr>heap := (heap s)[r := job'\<lparr>updatedAt := now\<rparr>],
            queue := queue',
            processing := processing s - {task_videoId t},
            tasks := remove_nth k (tasks s)\<rparr>)"

text \<open>The end of the \<^verbatim>\<open>try\<close> block followed by \<^verbatim>\<open>finally\<close>.\<close>

definition pipeline_completed :: "nat \<Rightarrow> ProcessingResult \<Rightarrow> int \<Rightarrow> JobQueueService
    \<Rightarrow> JobQueueService" where
  "pipeline_completed k res now s =
     (let t = tasks s ! k; r = task_job t in
      s\<lparr>heap := (heap s)[r := (heap s ! r)\<lparr>progress := 100, status := Completed,
                                            result := Some res, updatedAt := now\<rparr>],
        processing := processing s - {task_videoId t},
        tasks := remove_nth k (tasks s)\<rparr>)"

text \<open>
  \<^verbatim>\<open>detectSilences\<close>. The \<^verbatim>\<open>ffmpeg\<close> process either fails to start, or closes with an
  exit code (\<open>None\<close> is \<^verbatim>\<open>null\<close>) and the numbers found after the start and end markers
  of its diagnostic stream. \<open>show_code\<close> prints the code as the template literal does.
\<close>

definition digit :: "nat \<Rightarrow> char" where
  "digit n = ''0123456789'' ! n"

fun show_nat :: "nat \<Rightarrow> string" where
  "show_nat n = (if n < 10 then [digit n] else show_nat (n div 10) @ [digit (n mod 10)])"

definition show_code :: "int option \<Rightarrow> string" where
  "show_code code =
     (case code of
        None \<Rightarrow> ''null''
      | Some c \<Rightarrow> if c < 0 then ''-'' @ show_nat (nat (- c)) else show_nat (nat c))"

datatype detection = DetectSpawnError string | DetectExit "int option" "real list" "real list"

fun detectSilences :: "subtraction \<Rightarrow> detection \<Rightarrow> string + SilenceInterval list" where
  "detectSilences fsub (DetectSpawnError e) = Inl e"
| "detectSilences fsub (DetectExit code starts ends) =
     (if code \<noteq> Some 0
      then Inl (''FFmpeg silence detection failed with code '' @ show_code code)
      else Inr (map (\<lambda>(s, e). \<lparr>start = s, end' = e, duration = fsub e s\<rparr>) (zip starts ends)))"

text \<open>
  The continuation of \<^verbatim>\<open>processNext\<close> when the promise of \<^verbatim>\<open>detectSilences\<close> settles
  (merge with a gap of 2 seconds, cap, progress 50, call of \<^verbatim>\<open>removeSilences\<close>), and when
  the promise of \<^verbatim>\<open>removeSilences\<close> settles.
\<close>

definition detection_settled :: "subtraction \<Rightarrow> nat \<Rightarrow> detection \<Rightarrow> int \<Rightarrow> JobQueueService \<Rightarrow> JobQueueService" where
  "detection_settled fsub k d now s =
     (if k < length (tasks s) \<and> task_phase (tasks s ! k) = Detecting
      then (case detectSilences fsub d of
          Inl errorMessage \<Rightarrow> pipeline_failed k errorMessage now s
        | Inr silences \<Rightarrow>
            let silences' = limitSilences fsub (mergeSilences fsub silences 2);
                r = task_job (tasks s ! k)
            in s\<lparr>heap := (heap s)[r := (heap s ! r)\<lparr>progress := 50\<rparr>],
                  tasks := (tasks s)[k := (tasks s ! k)\<lparr>task_phase := Removing silences'\<rparr>]\<rparr>)
      else s)"

definition removal_settled :: "nat \<Rightarrow> engine_outcomes \<Rightarrow> int \<Rightarrow> JobQueueService \<Rightarrow> JobQueueService" where
  "removal_settled k io now s =
     (if k < length (tasks s)
      then (case task_phase (tasks s ! k) of
          Detecting \<Rightarrow> s
        | Removing silences \<Rightarrow>
            let job = heap s ! task_job (tasks s ! k) in
            (case snd (removeSilences io (inputPath job) (job_outputPath job) silences) of
               Inl errorMessage \<Rightarrow> pipeline_failed k errorMessage now s
             | Inr res \<Rightarrow> pipeline_completed k res now s))
      else s)"
definition cancelJob :: "string \<Rightarrow> JobQueueService \<Rightarrow> JobQueueService" where
  "cancelJob videoId' s =
     (case map_of (jobs s) videoId' of
        None \<Rightarrow> s
      | Some r \<Rightarrow>
          s\<lparr>queue := remove1 videoId' (queue s),
            heap := (if status (heap s ! r) = Processing
                     then (heap s)[r := (heap s ! r)\<lparr>status := Failed,
                                                      error := Some ''Job cancelled by user''\<rparr>]
                     else heap s),
            jobs := AList.delete videoId' (jobs s)\<rparr>)"

definition clearOldJobs :: "real \<Rightarrow> int \<Rightarrow> JobQueueService \<Rightarrow> nat \<times> JobQueueService" where
  "clearOldJobs maxAgeMinutes now s =
     (let old = (\<lambda>(videoId', r).
            (status (heap s ! r) = Completed \<or> status (heap s ! r) = Failed)
            \<and> real_of_int (now - updatedAt (heap s ! r)) / 1000 / 60 > maxAgeMinutes)
      in (length (filter old (jobs s)), s\<lparr>jobs := filter (\<lambda>e. \<not> old e) (jobs s)\<rparr>))"

text \<open>
  The service as a transition system: one event is one uninterrupted run of JavaScript.
  An event for a task that does not exist, or is in the other phase, changes nothing.
\<close>

datatype event =
    AddJob string string string int
  | ProcessNext int
  | DetectionSettled nat detection int
  | RemovalSettled nat engine_outcomes int
  | CancelJob string
  | ClearOldJobs real int

fun step :: "subtraction \<Rightarrow> event \<Rightarrow> JobQueueService \<Rightarrow> JobQueueService" where
  "step fsub (AddJob videoId' inputPath' outputPath' now) s = addJob videoId' inputPath' outputPath' now s"
| "step fsub (ProcessNext now) s = processNext now s"
| "step fsub (DetectionSettled k d now) s = detection_settled fsub k d now s"
| "step fsub (RemovalSettled k io now) s = removal_settled k io now s"
| "step fsub (CancelJob videoId') s = cancelJob videoId' s"
| "step fsub (ClearOldJobs maxAgeMinutes now) s = snd (clearOldJobs maxAgeMinutes now s)"

fun run :: "subtraction \<Rightarrow> event list \<Rightarrow> JobQueueService \<Rightarrow> JobQueueService" where
  "run fsub [] s = s"
| "run fsub (e # es) s = run fsub es (step fsub e s)"

text \<open>
  \<open>fresh_submissions es s\<close>: along the run of \<open>es\<close> from \<open>s\<close>, \<^verbatim>\<open>addJob\<close> is only called
  with an identifier that is then neither pending nor active.
\<close>

fun fresh_submissions :: "subtraction \<Rightarrow> event list \<Rightarrow> JobQueueService \<Rightarrow> bool" where
  "fresh_submissions fsub [] s = True"
| "fresh_submissions fsub (e # es) s =
     ((case e of
         AddJob videoId' _ _ _ \<Rightarrow> videoId' \<notin> set (queue s) \<and> videoId' \<notin> processing s
       | _ \<Rightarrow> True)
      \<and> fresh_submissions fsub es (step fsub e s))"

definition job_status_of :: "JobQueueService \<Rightarrow> string \<Rightarrow> job_status option" where
  "job_status_of s videoId' = map_option (\<lambda>r. status (heap s ! r)) (map_of (jobs s) videoId')"

text \<open>
  The invariant behind the membership property: the pending queue has no duplicates and
  shares no identifier with the active set, and the suspended calls of \<^verbatim>\<open>processNext\<close>
  have pairwise different identifiers, all of them in the active set.
\<close>

definition queue_invariant :: "JobQueueService \<Rightarrow> bool" where
  "queue_invariant s \<longleftrightarrow>
     distinct (queue s)
     \<and> set (queue s) \<inter> processing s = {}
     \<and> task_videoId ` set (tasks s) \<subseteq> processing s
     \<and> distinct (map task_videoId (tasks s))"

text \<open>
  A submission as an event, and the object literal that \<^verbatim>\<open>addJob\<close> stores.
\<close>

definition submit :: "string \<times> string \<times> string \<times> int \<Rightarrow> event" where
  "submit = (\<lambda>(videoId', inputPath', outputPath', now). AddJob videoId' inputPath' outputPath' now)"

definition new_job :: "string \<Rightarrow> string \<Rightarrow> string \<Rightarrow> int \<Rightarrow> Job" where
  "new_job videoId' inputPath' outputPath' now =
     \<lparr>job_id = videoId', videoId = videoId', inputPath = inputPath',
      job_outputPath = outputPath', status = Queued, progress = 0, error = None,
      result = None, createdAt = now, updatedAt = now, retries = 0\<rparr>"

text \<open>Every reference held by the map or by a suspended call points into the store.\<close>

definition refs_valid :: "JobQueueService \<Rightarrow> bool" where
  "refs_valid s \<longleftrightarrow>
     (\<forall>(v, r) \<in> set (jobs s). r < length (heap s))
     \<and> (\<forall>t \<in> set (tasks s). task_job t < length (heap s))"

section \<open>Properties of mergeSilences\<close>

text \<open>
  For intervals with \<open>start < end\<close> in a list ordered by start, \<open>non_overlapping\<close> says
  that the half-open ranges are pairwise disjoint.
\<close>

lemma non_overlapping_iff_disjoint:
  assumes "\<forall>x \<in> set xs. start x < end' x" and "ordered_by_start xs"
  shows "non_overlapping xs \<longleftrightarrow>
    (\<forall>i j. i < j \<longrightarrow> j < length xs \<longrightarrow> silence_range (xs ! i) \<inter> silence_range (xs ! j) = {})"
proof -
  have ord: "start (xs ! i) \<le> start (xs ! j)" if "i < j" "j < length xs" for i j
    using assms(2) that by (simp add: ordered_by_start_def sorted_iff_nth_mono)
  have ne: "start (xs ! j) < end' (xs ! j)" if "j < length xs" for j
    using assms(1) that by simp
  have "(end' (xs ! i) \<le> start (xs ! j))
      = (silence_range (xs ! i) \<inter> silence_range (xs ! j) = {})"
    if "i < j" "j < length xs" for i j
  proof
    assume "end' (xs ! i) \<le> start (xs ! j)"
    then show "silence_range (xs ! i) \<inter> silence_range (xs ! j) = {}"
      by (auto simp: silence_range_def)
  next
    assume d: "silence_range (xs ! i) \<inter> silence_range (xs ! j) = {}"
    show "end' (xs ! i) \<le> start (xs ! j)"
    proof (rule ccontr)
      assume "\<not> end' (xs ! i) \<le> start (xs ! j)"
      then have "start (xs ! j) \<in> silence_range (xs ! i) \<inter> silence_range (xs ! j)"
        using ord[OF that] ne[OF that(2)] by (simp add: silence_range_def)
      then show False using d by simp
    qed
  qed
  then show ?thesis
    by (simp add: non_overlapping_def sorted_wrt_iff_nth_less)
qed

lemma merge_loop_from: "merge_loop fsub g m c rest = m @ merge_from fsub g c rest"
  by (induction rest arbitrary: m c) (simp_all add: Let_def)

lemma mergeSilences_from: "mergeSilences fsub (x # xs) g = merge_from fsub g x xs"
  by (simp add: mergeSilences_def merge_loop_from)

lemma runs_Nil_iff: "runs fsub g xs = [] \<longleftrightarrow> xs = []"
  by (induction fsub g xs rule: runs.induct) (auto split: list.splits)

lemma runs_same_end:
  "end' a = end' b \<Longrightarrow> runs fsub g (a # zs) = (case runs fsub g (b # zs) of [] \<Rightarrow> [] | r # rs \<Rightarrow> (a # tl r) # rs)"
proof (cases zs)
  case Nil
  then show ?thesis by simp
next
  case (Cons y ys)
  assume e: "end' a = end' b"
  have "runs fsub g (y # ys) \<noteq> []" by (simp add: runs_Nil_iff)
  then obtain r rs where "runs fsub g (y # ys) = r # rs" by (cases "runs fsub g (y # ys)") auto
  with Cons e show ?thesis by simp
qed

lemma merge_from_runs:
  "merge_from fsub g c rest = map coalesce (runs fsub g (c # rest))"
proof (induction rest arbitrary: c)
  case Nil
  show ?case by (simp add: coalesce_def)
next
  case (Cons y zs)
  obtain r rs where rr: "runs fsub g (y # zs) = r # rs"
    using runs_Nil_iff[of fsub g "y # zs"] by (cases "runs fsub g (y # zs)") auto
  have rne: "r \<noteq> []" and hdr: "hd r = y"
    using rr by (cases zs; auto split: if_splits list.splits)+
  show ?case
  proof (cases "fsub (start y) (end' c) < g")
    case True
    let ?c = "c\<lparr>end' := end' y\<rparr>"
    have "merge_from fsub g c (y # zs) = map coalesce (runs fsub g (?c # zs))"
      using True Cons.IH[of ?c] by simp
    also have "runs fsub g (?c # zs) = (?c # tl r) # rs"
      using runs_same_end[of ?c y fsub g zs] rr by simp
    also have "map coalesce ((?c # tl r) # rs) = map coalesce ((c # r) # rs)"
      using rne hdr by (cases r) (auto simp: coalesce_def)
    finally show ?thesis using True rr by simp
  next
    case False
    then show ?thesis using Cons.IH[of y] by (simp add: coalesce_def)
  qed
qed

lemma mergeSilences_runs: "mergeSilences fsub xs g = map coalesce (runs fsub g xs)"
  by (cases xs) (simp_all add: mergeSilences_def merge_loop_from merge_from_runs)

lemma concat_runs: "concat (runs fsub g xs) = xs"
  by (induction fsub g xs rule: runs.induct) (auto split: list.splits)

lemma runs_nonempty: "[] \<notin> set (runs fsub g xs)"
  by (induction fsub g xs rule: runs.induct) (auto split: list.splits)

lemma hd_hd_runs: "xs \<noteq> [] \<Longrightarrow> hd (hd (runs fsub g xs)) = hd xs"
  by (induction fsub g xs rule: runs.induct) (auto split: list.splits)

lemma runs_within:
  "r \<in> set (runs fsub g xs) \<Longrightarrow> successively (\<lambda>a b. fsub (start b) (end' a) < g) r"
proof (induction fsub g xs arbitrary: r rule: runs.induct)
  case (3 fsub g x y zs)
  obtain q qs where rr: "runs fsub g (y # zs) = q # qs"
    using runs_Nil_iff[of fsub g "y # zs"] by (cases "runs fsub g (y # zs)") auto
  have hq: "hd q = y" "q \<noteq> []"
    using hd_hd_runs[of "y # zs" fsub g] runs_nonempty[of fsub g "y # zs"] rr by auto
  have ih: "\<And>r. r \<in> set (q # qs) \<Longrightarrow> successively (\<lambda>a b. fsub (start b) (end' a) < g) r"
    using "3.IH" rr by (cases "fsub (start y) (end' x) < g") auto
  show ?case
  proof (cases "fsub (start y) (end' x) < g")
    case True
    then have "r = x # q \<or> r \<in> set qs" using "3.prems" rr by simp
    then show ?thesis
    proof
      assume "r = x # q"
      moreover have "successively (\<lambda>a b. fsub (start b) (end' a) < g) q" using ih by simp
      ultimately show ?thesis using True hq by (simp add: successively_Cons)
    next
      assume "r \<in> set qs"
      then show ?thesis using ih by simp
    qed
  next
    case False
    then have "r = [x] \<or> r \<in> set (q # qs)" using "3.prems" rr by simp
    then show ?thesis using ih by auto
  qed
qed simp_all

lemma runs_between:
  "successively (\<lambda>r1 r2. \<not> fsub (start (hd r2)) (end' (last r1)) < g) (runs fsub g xs)"
proof (induction fsub g xs rule: runs.induct)
  case (3 fsub g x y zs)
  obtain q qs where rr: "runs fsub g (y # zs) = q # qs"
    using runs_Nil_iff[of fsub g "y # zs"] by (cases "runs fsub g (y # zs)") auto
  have hq: "hd q = y" "q \<noteq> []"
    using hd_hd_runs[of "y # zs" fsub g] runs_nonempty[of fsub g "y # zs"] rr by auto
  show ?case
  proof (cases "fsub (start y) (end' x) < g")
    case True
    with 3 rr hq show ?thesis
      by (cases qs) (auto simp: successively_Cons)
  next
    case False
    with 3 rr hq show ?thesis by (auto simp: successively_Cons)
  qed
qed simp_all

lemma merge_from_starts: "start ` set (merge_from fsub g c rest) \<subseteq> start ` set (c # rest)"
proof (induction rest arbitrary: c)
  case (Cons n rest)
  show ?case using Cons[of "c\<lparr>end' := end' n\<rparr>"] Cons[of n] by auto
qed simp

lemma merge_from_ordered:
  "sorted (map start (c # rest)) \<Longrightarrow> sorted (map start (merge_from fsub g c rest))"
proof (induction rest arbitrary: c)
  case (Cons n rest)
  show ?case
  proof (cases "fsub (start n) (end' c) < g")
    case True
    have "sorted (map start (c\<lparr>end' := end' n\<rparr> # rest))" using Cons.prems by auto
    then show ?thesis using True Cons.IH by simp
  next
    case False
    have "\<forall>s \<in> start ` set (merge_from fsub g n rest). start c \<le> s"
      using merge_from_starts[of fsub g n rest] Cons.prems by auto
    moreover have "sorted (map start (merge_from fsub g n rest))"
      using Cons.IH[of n] Cons.prems by simp
    ultimately show ?thesis using False by auto
  qed
qed simp

lemma merge_from_non_overlapping:
  "sorted_wrt (\<lambda>a b. end' a \<le> start b) (c # rest) \<Longrightarrow>
   sorted_wrt (\<lambda>a b. end' a \<le> start b) (merge_from fsub g c rest)"
proof (induction rest arbitrary: c)
  case (Cons n rest)
  show ?case
  proof (cases "fsub (start n) (end' c) < g")
    case True
    have "sorted_wrt (\<lambda>a b. end' a \<le> start b) (c\<lparr>end' := end' n\<rparr> # rest)"
      using Cons.prems by auto
    then show ?thesis using True Cons.IH by simp
  next
    case False
    have "\<forall>s \<in> start ` set (merge_from fsub g n rest). end' c \<le> s"
      using merge_from_starts[of fsub g n rest] Cons.prems by auto
    moreover have "sorted_wrt (\<lambda>a b. end' a \<le> start b) (merge_from fsub g n rest)"
      using Cons.IH[of n] Cons.prems by simp
    ultimately show ?thesis using False by auto
  qed
qed simp

lemma merge_from_total:
  "sorted_wrt (\<lambda>a b. end' a \<le> start b) (c # rest) \<Longrightarrow>
   total_duration (c # rest) \<le> total_duration (merge_from fsub g c rest)"
proof (induction rest arbitrary: c)
  case (Cons n rest)
  show ?case
  proof (cases "fsub (start n) (end' c) < g")
    case True
    let ?c = "c\<lparr>end' := end' n\<rparr>"
    have "sorted_wrt (\<lambda>a b. end' a \<le> start b) (?c # rest)"
      using Cons.prems by auto
    then have "total_duration (?c # rest) \<le> total_duration (merge_from fsub g ?c rest)"
      by (rule Cons.IH)
    moreover have "total_duration (c # n # rest) \<le> total_duration (?c # rest)"
      using Cons.prems by (simp add: total_duration_def)
    ultimately show ?thesis using True by simp
  next
    case False
    have "total_duration (n # rest) \<le> total_duration (merge_from fsub g n rest)"
      using Cons.IH[of n] Cons.prems by simp
    then show ?thesis using False by (simp add: total_duration_def)
  qed
qed simp

lemma merge_from_hd: "merge_from fsub g c rest \<noteq> [] \<and> start (hd (merge_from fsub g c rest)) = start c"
  by (induction rest arbitrary: c) auto

lemma merge_from_gaps:
  "successively (\<lambda>a b. \<not> fsub (start b) (end' a) < g) (merge_from fsub g c rest)"
proof (induction rest arbitrary: c)
  case (Cons n rest)
  show ?case
    using Cons[of n] Cons[of "c\<lparr>end' := end' n\<rparr>"] merge_from_hd[of fsub g n rest]
    by (auto simp: successively_Cons)
qed simp

lemma merge_from_fixed:
  "successively (\<lambda>a b. \<not> fsub (start b) (end' a) < g) (c # rest) \<Longrightarrow> merge_from fsub g c rest = c # rest"
  by (induction rest arbitrary: c) (auto simp: successively_Cons)

lemma mergeSilences_fixed:
  "successively (\<lambda>a b. \<not> fsub (start b) (end' a) < g) xs \<Longrightarrow> mergeSilences fsub xs g = xs"
  by (cases xs) (simp_all add: mergeSilences_def merge_loop_from merge_from_fixed)

lemma mergeSilences_gaps:
  "successively (\<lambda>a b. \<not> fsub (start b) (end' a) < g) (mergeSilences fsub xs g)"
  by (cases xs) (simp_all add: mergeSilences_def merge_loop_from merge_from_gaps)

text \<open>
  C2: on a list ordered by start and without overlaps, \<^verbatim>\<open>mergeSilences\<close> replaces each
  maximal run of consecutive intervals with gaps below \<open>minGap\<close> by one interval, a gap being
  the difference \<^verbatim>\<open>next.start - current.end\<close> that the program computes (the runs
  concatenate to the input, are non-empty, have all inner gaps below \<open>minGap\<close> and no such
  gap between two neighbouring runs); the output is ordered by start and without overlaps,
  covers at least the input's total duration, is empty for the empty input and is the input
  for a single interval.
\<close>

theorem mergeSilences_correct:
  assumes "ordered_by_start silences" and "non_overlapping silences"
  shows "mergeSilences fsub silences minGap = map coalesce (runs fsub minGap silences)
    \<and> concat (runs fsub minGap silences) = silences
    \<and> [] \<notin> set (runs fsub minGap silences)
    \<and> (\<forall>r \<in> set (runs fsub minGap silences). successively (\<lambda>a b. fsub (start b) (end' a) < minGap) r)
    \<and> successively (\<lambda>r1 r2. \<not> fsub (start (hd r2)) (end' (last r1)) < minGap) (runs fsub minGap silences)
    \<and> ordered_by_start (mergeSilences fsub silences minGap)
    \<and> non_overlapping (mergeSilences fsub silences minGap)
    \<and> total_duration silences \<le> total_duration (mergeSilences fsub silences minGap)
    \<and> mergeSilences fsub [] minGap = []
    \<and> mergeSilences fsub [x] minGap = [x]"
proof -
  have ord: "ordered_by_start (mergeSilences fsub silences minGap)"
    using assms(1) merge_from_ordered[of _ _ fsub minGap]
    by (cases silences) (simp_all add: ordered_by_start_def mergeSilences_def merge_loop_from del: sorted_wrt.simps)
  have nov: "non_overlapping (mergeSilences fsub silences minGap)"
    using assms(2) merge_from_non_overlapping[of _ _ fsub minGap]
    by (cases silences) (simp_all add: non_overlapping_def mergeSilences_def merge_loop_from del: sorted_wrt.simps)
  have tot: "total_duration silences \<le> total_duration (mergeSilences fsub silences minGap)"
    using assms(2) merge_from_total[of _ _ fsub minGap]
    by (cases silences) (simp_all add: non_overlapping_def mergeSilences_def merge_loop_from del: sorted_wrt.simps)
  have e: "mergeSilences fsub [] minGap = []" "mergeSilences fsub [x] minGap = [x]"
    by (simp_all add: mergeSilences_def)
  show ?thesis
    using ord nov tot e mergeSilences_runs[of fsub silences minGap] concat_runs[of fsub minGap silences]
      runs_nonempty[of fsub minGap silences] runs_within[of _ fsub minGap silences]
      runs_between[of fsub minGap silences]
    by blast
qed

theorem mergeSilences_correct_witness:
  "ordered_by_start [\<lparr>start = 2, end' = 3, duration = 1\<rparr>, \<lparr>start = 3.5, end' = 4, duration = 0.5\<rparr>]
   \<and> non_overlapping [\<lparr>start = 2, end' = 3, duration = 1\<rparr>, \<lparr>start = 3.5, end' = 4, duration = 0.5\<rparr>]
   \<and> runs (-) 2 [\<lparr>start = 2, end' = 3, duration = 1\<rparr>, \<lparr>start = 3.5, end' = 4, duration = 0.5\<rparr>]
        = [[\<lparr>start = 2, end' = 3, duration = 1\<rparr>, \<lparr>start = 3.5, end' = 4, duration = 0.5\<rparr>]]
   \<and> mergeSilences (-) [\<lparr>start = 2, end' = 3, duration = 1\<rparr>, \<lparr>start = 3.5, end' = 4, duration = 0.5\<rparr>] 2
        = [\<lparr>start = 2, end' = 4, duration = 1\<rparr>]
   \<and> total_duration [\<lparr>start = 2, end' = 3, duration = 1\<rparr>, \<lparr>start = 3.5, end' = 4, duration = 0.5\<rparr>]
        \<le> total_duration [\<lparr>start = 2, end' = 4, duration = 1\<rparr>]"
proof -
  let ?S = "[\<lparr>start = 2, end' = 3, duration = 1\<rparr>, \<lparr>start = 3.5, end' = 4, duration = 0.5\<rparr>]"
  have h: "ordered_by_start ?S" "non_overlapping ?S"
    by (simp_all add: ordered_by_start_def non_overlapping_def)
  have r: "runs (-) 2 ?S = [?S]" by simp
  from mergeSilences_correct[where fsub = "(-)" and minGap = 2
      and x = "\<lparr>start = 2, end' = 3, duration = 1\<rparr>", OF h] h r
  show ?thesis
    by (simp add: coalesce_def total_duration_def)
qed

text \<open>
  C9: \<^verbatim>\<open>mergeSilences\<close> applied to its own output returns that output. This holds for every
  input list, ordered or not, and whatever the subtraction computes.
\<close>

theorem mergeSilences_idempotent:
  "mergeSilences fsub (mergeSilences fsub silences minGap) minGap = mergeSilences fsub silences minGap"
  by (rule mergeSilences_fixed) (rule mergeSilences_gaps)

section \<open>Properties of the cap\<close>

lemma insert_cmp_key:
  assumes "\<And>a b. cmp a b \<le> 0 \<longleftrightarrow> f a \<le> f b"
  shows "insert_cmp cmp x ys = insort_key f x ys"
  by (induction ys) (simp_all add: assms)

lemma js_sort_key:
  assumes "\<And>a b. cmp a b \<le> 0 \<longleftrightarrow> f a \<le> f b"
  shows "js_sort cmp xs = sort_key f xs"
  by (induction xs) (simp_all add: js_sort_def insert_cmp_key[OF assms] sort_key_def)

lemma js_sort_start:
  "sign_exact fsub \<Longrightarrow> js_sort (\<lambda>a b. fsub (start a) (start b)) xs = sort_key start xs"
  by (rule js_sort_key) (simp add: sign_exact_def)

lemma js_sort_length_desc:
  "js_sort (\<lambda>a b. fsub (fsub (end' b) (start b)) (fsub (end' a) (start a))) xs
     = sort_key (\<lambda>x. - fsub (end' x) (start x)) xs"
  if "sign_exact fsub"
  by (rule js_sort_key) (simp add: that[unfolded sign_exact_def])

lemma insort_key_lex:
  fixes f :: "'a \<Rightarrow> real" and h :: "'a \<Rightarrow> real"
  assumes "\<forall>y \<in> set ys. h x \<le> h y"
  shows "insort_key f x ys = insort_key (\<lambda>x. (f x, h x)) x ys"
  using assms by (induction ys) (auto simp: less_eq_prod_def)

lemma sort_key_lex:
  fixes f :: "'a \<Rightarrow> real" and h :: "'a \<Rightarrow> real"
  assumes "sorted (map h xs)"
  shows "sort_key f xs = sort_key (\<lambda>x. (f x, h x)) xs"
  using assms
proof (induction xs)
  case (Cons x xs)
  have "\<forall>y \<in> set (sort_key f xs). h x \<le> h y" using Cons.prems by auto
  then show ?case using Cons insort_key_lex[of "sort_key f xs" h x f] by (simp add: sort_key_def)
qed simp

lemma limitSilences_spec:
  "sign_exact fsub \<Longrightarrow> sorted (map start xs) \<Longrightarrow> limitSilences fsub xs = cap_spec fsub 10 xs"
  using sort_key_lex[of start xs "\<lambda>x. - fsub (end' x) (start x)"]
  by (simp add: limitSilences_def cap_spec_def js_sort_start js_sort_length_desc)

lemma take_drop_sorted_key:
  fixes k :: "'a \<Rightarrow> 'b::linorder"
  assumes "sorted (map k ys)" "a \<in> set (take n ys)" "b \<in> set (drop n ys)"
  shows "k a \<le> k b"
proof -
  have "sorted (map k (take n ys) @ map k (drop n ys))"
    using assms(1) by (simp flip: map_append)
  then show ?thesis using assms(2,3) by (auto simp: sorted_append)
qed

lemma cap_spec_selection:
  assumes "limit < length xs"
  shows "mset xs - mset (cap_spec fsub limit xs)
           = mset (drop limit (sort_key (\<lambda>x. (- fsub (end' x) (start x), start x)) xs))"
    and "mset (cap_spec fsub limit xs)
           = mset (take limit (sort_key (\<lambda>x. (- fsub (end' x) (start x), start x)) xs))"
proof -
  let ?ys = "sort_key (\<lambda>x. (- fsub (end' x) (start x), start x)) xs"
  have "mset xs = mset (take limit ?ys) + mset (drop limit ?ys)"
    by (metis append_take_drop_id mset_append mset_sort)
  moreover show "mset (cap_spec fsub limit xs) = mset (take limit ?ys)"
    using assms by (simp add: cap_spec_def)
  ultimately show "mset xs - mset (cap_spec fsub limit xs) = mset (drop limit ?ys)"
    by simp
qed

lemma cap_spec_preferred:
  assumes "limit < length xs" "a \<in># mset (cap_spec fsub limit xs)"
    "b \<in># mset xs - mset (cap_spec fsub limit xs)"
  shows "\<not> preferred fsub b a"
proof -
  let ?k = "\<lambda>x. (- fsub (end' x) (start x), start x)"
  let ?ys = "sort_key ?k xs"
  have "a \<in> set (take limit ?ys)" "b \<in> set (drop limit ?ys)"
    using assms cap_spec_selection[OF assms(1)] by (metis set_mset_mset)+
  then have "?k a \<le> ?k b"
    using take_drop_sorted_key[of ?k ?ys a limit b] by simp
  then show ?thesis by (auto simp: preferred_def less_eq_prod_def)
qed

lemma cap_spec_length: "limit < length xs \<Longrightarrow> length (cap_spec fsub limit xs) = limit"
  by (simp add: cap_spec_def)

lemma cap_spec_sorted: "limit < length xs \<Longrightarrow> sorted (map start (cap_spec fsub limit xs))"
  by (simp add: cap_spec_def)

text \<open>
  C4: on a list ordered by start, the cap returns a list of at most ten intervals unchanged;
  on a longer list it returns exactly ten intervals, namely the ten of greatest duration
  \<open>end - start\<close>, the difference being the one the comparator computes, with ties broken by
  earliest start (no dropped interval is preferred to a kept one), sorted by start; on
  twelve intervals it drops two, none of a greater duration than a kept one. The
  subtraction is any that is zero or negative exactly when the exact difference is, as the
  subtraction of doubles is.
\<close>

theorem limitSilences_correct:
  assumes "sign_exact fsub" and "ordered_by_start silences"
  shows "(length silences \<le> 10 \<longrightarrow> limitSilences fsub silences = silences)
    \<and> (length silences > 10 \<longrightarrow>
          length (limitSilences fsub silences) = 10
        \<and> limitSilences fsub silences = cap_spec fsub 10 silences
        \<and> mset (limitSilences fsub silences) \<subseteq># mset silences
        \<and> (\<forall>a b. a \<in># mset (limitSilences fsub silences)
              \<and> b \<in># mset silences - mset (limitSilences fsub silences) \<longrightarrow> \<not> preferred fsub b a)
        \<and> ordered_by_start (limitSilences fsub silences))
    \<and> (length silences = 12 \<longrightarrow>
          length (limitSilences fsub silences) = 10
        \<and> size (mset silences - mset (limitSilences fsub silences)) = 2
        \<and> (\<forall>a b. a \<in># mset (limitSilences fsub silences)
              \<and> b \<in># mset silences - mset (limitSilences fsub silences)
              \<longrightarrow> fsub (end' b) (start b) \<le> fsub (end' a) (start a)))"
proof -
  have eq: "limitSilences fsub silences = cap_spec fsub 10 silences"
    using assms by (simp add: limitSilences_spec ordered_by_start_def)
  have small: "length silences \<le> 10 \<longrightarrow> limitSilences fsub silences = silences"
    by (simp add: limitSilences_def)
  have sub: "10 < length silences \<Longrightarrow> mset (cap_spec fsub 10 silences) \<subseteq># mset silences"
    using cap_spec_selection(2)[of 10 silences fsub]
    by (metis append_take_drop_id mset_append mset_sort mset_subset_eq_add_left)
  have pref: "10 < length silences \<Longrightarrow> a \<in># mset (cap_spec fsub 10 silences) \<Longrightarrow>
      b \<in># mset silences - mset (cap_spec fsub 10 silences) \<Longrightarrow> \<not> preferred fsub b a" for a b
    by (rule cap_spec_preferred)
  have big: "length silences > 10 \<longrightarrow>
          length (limitSilences fsub silences) = 10
        \<and> limitSilences fsub silences = cap_spec fsub 10 silences
        \<and> mset (limitSilences fsub silences) \<subseteq># mset silences
        \<and> (\<forall>a b. a \<in># mset (limitSilences fsub silences)
              \<and> b \<in># mset silences - mset (limitSilences fsub silences) \<longrightarrow> \<not> preferred fsub b a)
        \<and> ordered_by_start (limitSilences fsub silences)"
    using eq sub pref cap_spec_length[of 10 silences fsub] cap_spec_sorted[of 10 silences fsub]
    by (auto simp: ordered_by_start_def)
  have twelve: "length silences = 12 \<longrightarrow>
          length (limitSilences fsub silences) = 10
        \<and> size (mset silences - mset (limitSilences fsub silences)) = 2
        \<and> (\<forall>a b. a \<in># mset (limitSilences fsub silences)
              \<and> b \<in># mset silences - mset (limitSilences fsub silences)
              \<longrightarrow> fsub (end' b) (start b) \<le> fsub (end' a) (start a))"
  proof
    assume l: "length silences = 12"
    then have gt: "10 < length silences" by simp
    have "size (mset silences - mset (cap_spec fsub 10 silences)) = 2"
      using cap_spec_selection(1)[OF gt] l by simp
    moreover have "fsub (end' b) (start b) \<le> fsub (end' a) (start a)"
      if "a \<in># mset (cap_spec fsub 10 silences)" "b \<in># mset silences - mset (cap_spec fsub 10 silences)" for a b
      using pref[OF gt that] by (auto simp: preferred_def)
    ultimately show "length (limitSilences fsub silences) = 10
        \<and> size (mset silences - mset (limitSilences fsub silences)) = 2
        \<and> (\<forall>a b. a \<in># mset (limitSilences fsub silences)
              \<and> b \<in># mset silences - mset (limitSilences fsub silences)
              \<longrightarrow> fsub (end' b) (start b) \<le> fsub (end' a) (start a))"
      using eq gt cap_spec_length[of 10 silences fsub] by auto
  qed
  show ?thesis using small big twelve by blast
qed

theorem limitSilences_correct_witness:
  "sign_exact (-)
   \<and> ordered_by_start [\<lparr>start = 0, end' = 5, duration = 5\<rparr>, \<lparr>start = 10, end' = 11, duration = 1\<rparr>]
   \<and> length [\<lparr>start = 0, end' = 5, duration = 5\<rparr>, \<lparr>start = 10, end' = 11, duration = 1\<rparr>] \<le> 10
   \<and> limitSilences (-) [\<lparr>start = 0, end' = 5, duration = 5\<rparr>, \<lparr>start = 10, end' = 11, duration = 1\<rparr>]
        = [\<lparr>start = 0, end' = 5, duration = 5\<rparr>, \<lparr>start = 10, end' = 11, duration = 1\<rparr>]
   \<and> ordered_by_start
        [\<lparr>start = 0, end' = 5, duration = 5\<rparr>, \<lparr>start = 10, end' = 11, duration = 1\<rparr>,
         \<lparr>start = 20, end' = 24, duration = 4\<rparr>, \<lparr>start = 30, end' = 33, duration = 3\<rparr>,
         \<lparr>start = 40, end' = 46, duration = 6\<rparr>, \<lparr>start = 50, end' = 51, duration = 1\<rparr>,
         \<lparr>start = 60, end' = 67, duration = 7\<rparr>, \<lparr>start = 70, end' = 78, duration = 8\<rparr>,
         \<lparr>start = 80, end' = 89, duration = 9\<rparr>, \<lparr>start = 90, end' = 93, duration = 3\<rparr>,
         \<lparr>start = 100, end' = 102, duration = 2\<rparr>, \<lparr>start = 110, end' = 111, duration = 1\<rparr>]
   \<and> length
        [\<lparr>start = 0, end' = 5, duration = 5\<rparr>, \<lparr>start = 10, end' = 11, duration = 1\<rparr>,
         \<lparr>start = 20, end' = 24, duration = 4\<rparr>, \<lparr>start = 30, end' = 33, duration = 3\<rparr>,
         \<lparr>start = 40, end' = 46, duration = 6\<rparr>, \<lparr>start = 50, end' = 51, duration = 1\<rparr>,
         \<lparr>start = 60, end' = 67, duration = 7\<rparr>, \<lparr>start = 70, end' = 78, duration = 8\<rparr>,
         \<lparr>start = 80, end' = 89, duration = 9\<rparr>, \<lparr>start = 90, end' = 93, duration = 3\<rparr>,
         \<lparr>start = 100, end' = 102, duration = 2\<rparr>, \<lparr>start = 110, end' = 111, duration = 1\<rparr>] = 12
   \<and> limitSilences (-)
        [\<lparr>start = 0, end' = 5, duration = 5\<rparr>, \<lparr>start = 10, end' = 11, duration = 1\<rparr>,
         \<lparr>start = 20, end' = 24, duration = 4\<rparr>, \<lparr>start = 30, end' = 33, duration = 3\<rparr>,
         \<lparr>start = 40, end' = 46, duration = 6\<rparr>, \<lparr>start = 50, end' = 51, duration = 1\<rparr>,
         \<lparr>start = 60, end' = 67, duration = 7\<rparr>, \<lparr>start = 70, end' = 78, duration = 8\<rparr>,
         \<lparr>start = 80, end' = 89, duration = 9\<rparr>, \<lparr>start = 90, end' = 93, duration = 3\<rparr>,
         \<lparr>start = 100, end' = 102, duration = 2\<rparr>, \<lparr>start = 110, end' = 111, duration = 1\<rparr>]
      = [\<lparr>start = 0, end' = 5, duration = 5\<rparr>, \<lparr>start = 10, end' = 11, duration = 1\<rparr>,
         \<lparr>start = 20, end' = 24, duration = 4\<rparr>, \<lparr>start = 30, end' = 33, duration = 3\<rparr>,
         \<lparr>start = 40, end' = 46, duration = 6\<rparr>,
         \<lparr>start = 60, end' = 67, duration = 7\<rparr>, \<lparr>start = 70, end' = 78, duration = 8\<rparr>,
         \<lparr>start = 80, end' = 89, duration = 9\<rparr>, \<lparr>start = 90, end' = 93, duration = 3\<rparr>,
         \<lparr>start = 100, end' = 102, duration = 2\<rparr>]"
proof -
  let ?A = "[\<lparr>start = 0, end' = 5, duration = 5\<rparr>, \<lparr>start = 10, end' = 11, duration = 1\<rparr>]"
  let ?B = "[\<lparr>start = 0, end' = 5, duration = 5\<rparr>, \<lparr>start = 10, end' = 11, duration = 1\<rparr>,
         \<lparr>start = 20, end' = 24, duration = 4\<rparr>, \<lparr>start = 30, end' = 33, duration = 3\<rparr>,
         \<lparr>start = 40, end' = 46, duration = 6\<rparr>, \<lparr>start = 50, end' = 51, duration = 1\<rparr>,
         \<lparr>start = 60, end' = 67, duration = 7\<rparr>, \<lparr>start = 70, end' = 78, duration = 8\<rparr>,
         \<lparr>start = 80, end' = 89, duration = 9\<rparr>, \<lparr>start = 90, end' = 93, duration = 3\<rparr>,
         \<lparr>start = 100, end' = 102, duration = 2\<rparr>, \<lparr>start = 110, end' = 111, duration = 1\<rparr>]"
  have a: "ordered_by_start ?A" by (simp add: ordered_by_start_def)
  have b: "ordered_by_start ?B" by (simp add: ordered_by_start_def)
  have r: "limitSilences (-) ?B = [\<lparr>start = 0, end' = 5, duration = 5\<rparr>, \<lparr>start = 10, end' = 11, duration = 1\<rparr>,
         \<lparr>start = 20, end' = 24, duration = 4\<rparr>, \<lparr>start = 30, end' = 33, duration = 3\<rparr>,
         \<lparr>start = 40, end' = 46, duration = 6\<rparr>,
         \<lparr>start = 60, end' = 67, duration = 7\<rparr>, \<lparr>start = 70, end' = 78, duration = 8\<rparr>,
         \<lparr>start = 80, end' = 89, duration = 9\<rparr>, \<lparr>start = 90, end' = 93, duration = 3\<rparr>,
         \<lparr>start = 100, end' = 102, duration = 2\<rparr>]"
    by (simp add: limitSilences_def js_sort_def)
  have s: "sign_exact (-)" by (simp add: sign_exact_def)
  from limitSilences_correct[OF s a] limitSilences_correct[OF s b] s a b r show ?thesis
    by simp
qed

section \<open>The duration field\<close>

lemma insert_cmp_map:
  assumes "\<And>a b. cmp (f a) (f b) = cmp a b"
  shows "insert_cmp cmp (f x) (map f ys) = map f (insert_cmp cmp x ys)"
  by (induction ys) (simp_all add: assms)

lemma js_sort_map:
  assumes "\<And>a b. cmp (f a) (f b) = cmp a b"
  shows "js_sort cmp (map f xs) = map f (js_sort cmp xs)"
proof (induction xs)
  case (Cons x xs)
  then show ?case
    using insert_cmp_map[of cmp f x, OF assms] by (simp add: js_sort_def)
qed (simp add: js_sort_def)

lemma limitSilences_duration_irrelevant:
  "limitSilences fsub (map (\<lambda>x. x\<lparr>duration := d x\<rparr>) xs) = map (\<lambda>x. x\<lparr>duration := d x\<rparr>) (limitSilences fsub xs)"
proof -
  let ?f = "\<lambda>x. x\<lparr>duration := d x\<rparr>"
  have 1: "js_sort (\<lambda>a b. fsub (fsub (end' b) (start b)) (fsub (end' a) (start a))) (map ?f ys)
      = map ?f (js_sort (\<lambda>a b. fsub (fsub (end' b) (start b)) (fsub (end' a) (start a))) ys)" for ys
    by (rule js_sort_map) simp
  have 2: "js_sort (\<lambda>a b. fsub (start a) (start b)) (map ?f ys)
      = map ?f (js_sort (\<lambda>a b. fsub (start a) (start b)) ys)" for ys
    by (rule js_sort_map) simp
  show ?thesis
    by (simp add: limitSilences_def 1 2 take_map)
qed

lemma run_sorted:
  assumes "sorted_wrt P xs" "r \<in> set (runs fsub g xs)"
  shows "sorted_wrt P r"
proof -
  obtain ps ss where "runs fsub g xs = ps @ r # ss"
    using assms(2) by (meson split_list)
  then have "xs = concat ps @ r @ concat ss"
    using concat_runs[of fsub g xs] by simp
  then show ?thesis using assms(1) by (simp add: sorted_wrt_append)
qed

lemma run_member: "r \<in> set (runs fsub g xs) \<Longrightarrow> set r \<subseteq> set xs"
  using concat_runs[of fsub g xs] by (metis Sup_upper image_eqI set_concat)

lemma coalesced_run_ends:
  assumes lt: "\<forall>x \<in> set xs. start x < end' x"
    and no: "non_overlapping xs"
    and r: "r \<in> set (runs fsub g xs)" and len: "2 \<le> length r"
  shows "end' (hd r) < end' (coalesce r)"
proof -
  obtain a r' where ar: "r = a # r'" "r' \<noteq> []"
    using len by (cases r; cases "tl r") auto
  have "sorted_wrt (\<lambda>a b. end' a \<le> start b) r"
    using run_sorted[OF _ r] no by (simp add: non_overlapping_def)
  then have "end' a \<le> start (last r')" using ar by simp
  moreover have "last r' \<in> set xs"
    using run_member[OF r] ar by auto
  then have "start (last r') < end' (last r')"
    using lt by auto
  ultimately show ?thesis using ar by (simp add: coalesce_def)
qed

lemma coalesced_duration_stale:
  assumes rec: "recorded_durations fsub xs"
    and no: "non_overlapping xs"
    and r: "r \<in> set (runs fsub g xs)" and len: "2 \<le> length r"
  shows "end' (hd r) < end' (coalesce r)"
    and "duration (coalesce r) = fsub (end' (hd r)) (start (coalesce r))"
    and "increasing fsub \<Longrightarrow> duration (coalesce r) \<le> fsub (end' (coalesce r)) (start (coalesce r))"
    and "strictly_increasing fsub \<Longrightarrow>
           duration (coalesce r) < fsub (end' (coalesce r)) (start (coalesce r))"
proof -
  have lt: "\<forall>x \<in> set xs. start x < end' x"
    using rec by (simp add: recorded_durations_def)
  show e: "end' (hd r) < end' (coalesce r)"
    by (rule coalesced_run_ends[OF lt no r len])
  have "r \<noteq> []" using len by auto
  then have "hd r \<in> set xs" using run_member[OF r] by auto
  then have "duration (hd r) = fsub (end' (hd r)) (start (hd r))"
    using rec by (simp add: recorded_durations_def)
  then show d: "duration (coalesce r) = fsub (end' (hd r)) (start (coalesce r))"
    by (simp add: coalesce_def)
  show "duration (coalesce r) \<le> fsub (end' (coalesce r)) (start (coalesce r))"
    if "increasing fsub"
    using that e d by (simp add: increasing_def)
  show "duration (coalesce r) < fsub (end' (coalesce r)) (start (coalesce r))"
    if "strictly_increasing fsub"
    using that e d by (simp add: strictly_increasing_def)
qed

text \<open>
  C10, as amended: for every input, \<^verbatim>\<open>mergeSilences\<close> gives each output interval the start
  and the duration field of the first interval of its run and the end of the last, so the
  duration field is never written; and the cap never reads it: rewriting the duration
  fields of its input rewrites the same fields of its output and changes nothing else. When
  the input has no overlaps and each of its intervals has \<open>start < end\<close> and, as duration
  field, the difference \<open>end - start\<close> that \<^verbatim>\<open>detectSilences\<close> computes, an output interval
  coalesced from two or more ends strictly after the first interval of its run, and its
  duration field is the difference computed from that earlier end: never greater than the
  difference \<open>end - start\<close> computed for the output interval when the subtraction is
  monotone in its first operand, and strictly less when it is strictly monotone, as the
  exact subtraction is.
\<close>

theorem mergeSilences_duration_field:
  "mergeSilences fsub silences minGap = map coalesce (runs fsub minGap silences)
    \<and> map duration (mergeSilences fsub silences minGap)
          = map (\<lambda>r. duration (hd r)) (runs fsub minGap silences)
    \<and> map start (mergeSilences fsub silences minGap)
          = map (\<lambda>r. start (hd r)) (runs fsub minGap silences)
    \<and> map end' (mergeSilences fsub silences minGap)
          = map (\<lambda>r. end' (last r)) (runs fsub minGap silences)
    \<and> limitSilences fsub (map (\<lambda>x. x\<lparr>duration := d x\<rparr>) xs)
         = map (\<lambda>x. x\<lparr>duration := d x\<rparr>) (limitSilences fsub xs)
    \<and> (recorded_durations fsub silences \<and> non_overlapping silences \<longrightarrow>
         (\<forall>r \<in> set (runs fsub minGap silences). 2 \<le> length r \<longrightarrow>
              end' (hd r) < end' (coalesce r)
            \<and> duration (coalesce r) = fsub (end' (hd r)) (start (coalesce r))
            \<and> (increasing fsub \<longrightarrow>
                 duration (coalesce r) \<le> fsub (end' (coalesce r)) (start (coalesce r)))
            \<and> (strictly_increasing fsub \<longrightarrow>
                 duration (coalesce r) < fsub (end' (coalesce r)) (start (coalesce r)))))"
proof -
  have 1: "mergeSilences fsub silences minGap = map coalesce (runs fsub minGap silences)"
    by (rule mergeSilences_runs)
  have 2: "limitSilences fsub (map (\<lambda>x. x\<lparr>duration := d x\<rparr>) xs)
         = map (\<lambda>x. x\<lparr>duration := d x\<rparr>) (limitSilences fsub xs)"
    by (rule limitSilences_duration_irrelevant)
  have 3: "recorded_durations fsub silences \<and> non_overlapping silences \<longrightarrow>
         (\<forall>r \<in> set (runs fsub minGap silences). 2 \<le> length r \<longrightarrow>
              end' (hd r) < end' (coalesce r)
            \<and> duration (coalesce r) = fsub (end' (hd r)) (start (coalesce r))
            \<and> (increasing fsub \<longrightarrow>
                 duration (coalesce r) \<le> fsub (end' (coalesce r)) (start (coalesce r)))
            \<and> (strictly_increasing fsub \<longrightarrow>
                 duration (coalesce r) < fsub (end' (coalesce r)) (start (coalesce r))))"
    using coalesced_duration_stale[of fsub silences _ minGap] by blast
  have 4: "map duration (map coalesce rs) = map (\<lambda>r. duration (hd r)) rs"
    "map start (map coalesce rs) = map (\<lambda>r. start (hd r)) rs"
    "map end' (map coalesce rs) = map (\<lambda>r. end' (last r)) rs" for rs
    by (simp_all add: coalesce_def)
  show ?thesis
    unfolding 1 by (intro conjI) (rule refl 2 3 4)+
qed

theorem mergeSilences_duration_field_witness:
  "recorded_durations (-) [\<lparr>start = 2, end' = 3, duration = 1\<rparr>, \<lparr>start = 3.5, end' = 4, duration = 0.5\<rparr>]
   \<and> non_overlapping [\<lparr>start = 2, end' = 3, duration = 1\<rparr>, \<lparr>start = 3.5, end' = 4, duration = 0.5\<rparr>]
   \<and> increasing (-) \<and> strictly_increasing (-)
   \<and> runs (-) 2 [\<lparr>start = 2, end' = 3, duration = 1\<rparr>, \<lparr>start = 3.5, end' = 4, duration = 0.5\<rparr>]
        = [[\<lparr>start = 2, end' = 3, duration = 1\<rparr>, \<lparr>start = 3.5, end' = 4, duration = 0.5\<rparr>]]
   \<and> mergeSilences (-) [\<lparr>start = 2, end' = 3, duration = 1\<rparr>, \<lparr>start = 3.5, end' = 4, duration = 0.5\<rparr>] 2
        = [\<lparr>start = 2, end' = 4, duration = 1\<rparr>]
   \<and> duration \<lparr>start = 2, end' = 4, duration = 1\<rparr>
        < end' \<lparr>start = 2, end' = 4, duration = 1\<rparr> - start \<lparr>start = 2, end' = 4, duration = 1\<rparr>"
proof -
  let ?S = "[\<lparr>start = 2, end' = 3, duration = 1\<rparr>, \<lparr>start = 3.5, end' = 4, duration = 0.5\<rparr>]"
  have h: "recorded_durations (-) ?S" "non_overlapping ?S"
    "increasing (-)" "strictly_increasing (-)"
    by (simp_all add: non_overlapping_def recorded_durations_def increasing_def
        strictly_increasing_def)
  have r: "runs (-) 2 ?S = [?S]" by simp
  from mergeSilences_duration_field[of "(-)" ?S 2] h r show ?thesis
    by (simp add: coalesce_def)
qed

text \<open>
  C10 as stated fails: the duration field is whatever the input holds. Two intervals one
  second apart, the first with 5 in its duration field, are coalesced into an interval of
  three seconds that still holds 5. (The operands of the one subtraction are 2 and 1, whose
  difference is exact.)
\<close>

theorem stale_duration_counterexample:
  "mergeSilences (-) [\<lparr>start = 0, end' = 1, duration = 5\<rparr>, \<lparr>start = 2, end' = 3, duration = 1\<rparr>] 2
      = [\<lparr>start = 0, end' = 3, duration = 5\<rparr>]
   \<and> \<not> duration \<lparr>start = 0, end' = 3, duration = 5\<rparr>
        < end' \<lparr>start = 0, end' = 3, duration = 5\<rparr> - start \<lparr>start = 0, end' = 3, duration = 5\<rparr>"
  by (simp add: mergeSilences_def)

section \<open>Properties of buildKeepSegments\<close>

lemma keep_loop_from:
  "(case keep_loop xs segs c of (segments, currentStart) \<Rightarrow>
        if currentStart < D then segments @ [(currentStart, D)] else segments)
   = segs @ keep_from c D xs"
  by (induction xs arbitrary: segs c) simp_all

lemma buildKeepSegments_from: "buildKeepSegments xs D = keep_from 0 D xs"
  using keep_loop_from[where xs = xs and segs = "[]" and c = 0 and D = D] by (simp add: buildKeepSegments_def)

lemma cover_step:
  fixes K S R A B T :: "'a set"
  assumes "K \<union> S = R" "A \<union> B \<union> R = T"
  shows "(A \<union> K) \<union> (B \<union> S) = T"
  using assms by blast

lemma disjoint_step:
  fixes K S R A B :: "'a set"
  assumes "K \<inter> S = {}" "K \<union> S = R" "A \<inter> B = {}" "A \<inter> R = {}" "B \<inter> R = {}"
  shows "(A \<union> K) \<inter> (B \<union> S) = {}"
  using assms by blast

lemma keep_from_props:
  assumes "sorted_wrt (\<lambda>a b. end' a \<le> start b) xs"
    and "\<forall>x \<in> set xs. c \<le> start x \<and> start x \<le> end' x \<and> end' x \<le> D"
    and "c \<le> D"
  shows "(\<Union>k \<in> set (keep_from c D xs). seg_range k) \<union> (\<Union>x \<in> set xs. silence_range x) = {c ..< D}
    \<and> (\<Union>k \<in> set (keep_from c D xs). seg_range k) \<inter> (\<Union>x \<in> set xs. silence_range x) = {}
    \<and> (\<forall>k \<in> set (keep_from c D xs). c \<le> fst k \<and> fst k < snd k \<and> snd k \<le> D)
    \<and> sorted_wrt (\<lambda>a b. snd a \<le> fst b) (keep_from c D xs)"
  using assms
proof (induction xs arbitrary: c)
  case Nil
  then show ?case by (simp add: seg_range_def)
next
  case (Cons x xs)
  have h: "sorted_wrt (\<lambda>a b. end' a \<le> start b) xs"
    "\<forall>y \<in> set xs. end' x \<le> start y \<and> start y \<le> end' y \<and> end' y \<le> D"
    "end' x \<le> D" "c \<le> start x" "start x \<le> end' x"
    using Cons.prems by simp_all
  note ih = Cons.IH[OF h(1) h(2) h(3)]
  let ?K = "\<Union>k \<in> set (keep_from (end' x) D xs). seg_range k"
  let ?S = "\<Union>y \<in> set xs. silence_range y"
  from ih have u: "?K \<union> ?S = {end' x ..< D}" by (rule conjunct1)
  from ih have d: "?K \<inter> ?S = {}" by (rule conjunct2[THEN conjunct1])
  from ih have b: "\<forall>k \<in> set (keep_from (end' x) D xs). end' x \<le> fst k \<and> fst k < snd k \<and> snd k \<le> D"
    by (rule conjunct2[THEN conjunct2, THEN conjunct1])
  from ih have s: "sorted_wrt (\<lambda>a b. snd a \<le> fst b) (keep_from (end' x) D xs)"
    by (rule conjunct2[THEN conjunct2, THEN conjunct2])
  let ?K' = "\<Union>k \<in> set (keep_from c D (x # xs)). seg_range k"
  let ?S' = "\<Union>y \<in> set (x # xs). silence_range y"
  have S': "?S' = {start x ..< end' x} \<union> ?S"
    by (simp add: silence_range_def)
  have i1: "{start x ..< end' x} \<inter> {end' x ..< D} = {}" by auto
  show ?case
  proof (cases "start x > c")
    case True
    have kf: "keep_from c D (x # xs) = (c, start x) # keep_from (end' x) D xs"
      using True by simp
    have K': "?K' = {c ..< start x} \<union> ?K"
      by (simp add: kf seg_range_def)
    have 3: "{c ..< start x} \<union> {start x ..< end' x} \<union> {end' x ..< D} = {c ..< D}"
      using h(3,4,5) by auto
    have i2: "{c ..< start x} \<inter> {start x ..< end' x} = {}" by auto
    have i3: "{c ..< start x} \<inter> {end' x ..< D} = {}" using h(5) by auto
    have A: "?K' \<union> ?S' = {c ..< D}"
      unfolding K' S' by (rule cover_step[OF u 3])
    have B: "?K' \<inter> ?S' = {}"
      unfolding K' S' by (rule disjoint_step[OF d u i2 i3 i1])
    have C: "\<forall>k \<in> set (keep_from c D (x # xs)). c \<le> fst k \<and> fst k < snd k \<and> snd k \<le> D"
      unfolding kf using b True h(3,4,5) by auto
    have E: "sorted_wrt (\<lambda>a b. snd a \<le> fst b) (keep_from c D (x # xs))"
      unfolding kf using s b h(5) by auto
    from A B C E show ?thesis by (intro conjI)
  next
    case False
    then have cx: "c = start x" using h(4) by simp
    have kf: "keep_from c D (x # xs) = keep_from (end' x) D xs"
      using False by simp
    have K': "?K' = {} \<union> ?K"
      by (simp only: kf Un_empty_left)
    have 3: "{} \<union> {start x ..< end' x} \<union> {end' x ..< D} = {c ..< D}"
      using h(3,5) cx by auto
    have A: "?K' \<union> ?S' = {c ..< D}"
      unfolding K' S' by (rule cover_step[OF u 3])
    have B: "?K' \<inter> ?S' = {}"
      unfolding K' S' by (rule disjoint_step[OF d u _ _ i1]) simp_all
    have C: "\<forall>k \<in> set (keep_from c D (x # xs)). c \<le> fst k \<and> fst k < snd k \<and> snd k \<le> D"
      unfolding kf using b h(4,5) by auto
    have E: "sorted_wrt (\<lambda>a b. snd a \<le> fst b) (keep_from c D (x # xs))"
      unfolding kf by (rule s)
    from A B C E show ?thesis by (intro conjI)
  qed
qed

lemma nonoverlap_sorted_fst:
  assumes "sorted_wrt (\<lambda>a b. snd a \<le> fst b) (ks :: segment list)" "\<forall>k \<in> set ks. fst k < snd k"
  shows "sorted (map fst ks)"
proof -
  have "sorted_wrt (\<lambda>a b. fst a \<le> fst b) ks"
    using assms(2) by (intro sorted_wrt_mono_rel[OF _ assms(1)]) fastforce
  then show ?thesis by (simp add: sorted_map)
qed

text \<open>
  C3: for a duration \<open>D \<ge> 0\<close> and silences ordered by start, without overlaps and within
  \<open>[0, D)\<close>, the keep segments are ordered, non-empty and pairwise non-overlapping, and
  together with the silences they partition \<open>[0, D)\<close>: the union is \<open>[0, D)\<close> and no keep
  segment meets a silence. Without silences and with \<open>D > 0\<close> the result is \<open>[(0, D)]\<close>;
  the silence \<open>(2, 4)\<close> with \<open>D = 10\<close> gives \<open>[(0, 2), (4, 10)]\<close>.
\<close>

theorem buildKeepSegments_partition:
  assumes "0 \<le> totalDuration" and "ordered_by_start silences" and "non_overlapping silences"
    and "within_duration totalDuration silences"
  shows "sorted (map fst (buildKeepSegments silences totalDuration))
    \<and> sorted_wrt (\<lambda>a b. snd a \<le> fst b) (buildKeepSegments silences totalDuration)
    \<and> (\<forall>k \<in> set (buildKeepSegments silences totalDuration). fst k < snd k)
    \<and> (\<Union>k \<in> set (buildKeepSegments silences totalDuration). seg_range k)
          \<union> (\<Union>x \<in> set silences. silence_range x) = {0 ..< totalDuration}
    \<and> (\<Union>k \<in> set (buildKeepSegments silences totalDuration). seg_range k)
          \<inter> (\<Union>x \<in> set silences. silence_range x) = {}
    \<and> (0 < totalDuration \<longrightarrow> buildKeepSegments [] totalDuration = [(0, totalDuration)])
    \<and> buildKeepSegments [\<lparr>start = 2, end' = 4, duration = d\<rparr>] 10 = [(0, 2), (4, 10)]"
proof -
  let ?ks = "buildKeepSegments silences totalDuration"
  have p: "(\<Union>k \<in> set ?ks. seg_range k) \<union> (\<Union>x \<in> set silences. silence_range x) = {0 ..< totalDuration}
    \<and> (\<Union>k \<in> set ?ks. seg_range k) \<inter> (\<Union>x \<in> set silences. silence_range x) = {}
    \<and> (\<forall>k \<in> set ?ks. 0 \<le> fst k \<and> fst k < snd k \<and> snd k \<le> totalDuration)
    \<and> sorted_wrt (\<lambda>a b. snd a \<le> fst b) ?ks"
    unfolding buildKeepSegments_from
    using assms(1,3,4) by (intro keep_from_props) (simp_all add: non_overlapping_def within_duration_def)
  then have nd: "\<forall>k \<in> set ?ks. fst k < snd k" by blast
  have so: "sorted (map fst ?ks)"
    using p nd by (intro nonoverlap_sorted_fst) blast+
  have e1: "0 < totalDuration \<longrightarrow> buildKeepSegments [] totalDuration = [(0, totalDuration)]"
    by (simp add: buildKeepSegments_def)
  have e2: "buildKeepSegments [\<lparr>start = 2, end' = 4, duration = d\<rparr>] 10 = [(0, 2), (4, 10)]"
    by (simp add: buildKeepSegments_def)
  from so p nd e1 e2 show ?thesis by blast
qed

theorem buildKeepSegments_partition_witness:
  "(0::real) \<le> 10 \<and> (0::real) < 10
   \<and> ordered_by_start [\<lparr>start = 2, end' = 4, duration = 2\<rparr>]
   \<and> non_overlapping [\<lparr>start = 2, end' = 4, duration = 2\<rparr>]
   \<and> within_duration 10 [\<lparr>start = 2, end' = 4, duration = 2\<rparr>]
   \<and> buildKeepSegments [\<lparr>start = 2, end' = 4, duration = 2\<rparr>] 10 = [(0, 2), (4, 10)]
   \<and> seg_range (0, 2) \<union> seg_range (4, 10) \<union> silence_range \<lparr>start = 2, end' = 4, duration = 2\<rparr>
        = {0 ..< 10}
   \<and> buildKeepSegments [] 10 = [(0, 10)]"
proof -
  let ?S = "[\<lparr>start = 2, end' = 4, duration = 2\<rparr>]"
  have h: "(0::real) \<le> 10" "ordered_by_start ?S" "non_overlapping ?S" "within_duration 10 ?S"
    by (simp_all add: ordered_by_start_def non_overlapping_def within_duration_def)
  have r: "buildKeepSegments ?S 10 = [(0, 2), (4, 10)]"
    by (simp add: buildKeepSegments_def)
  from buildKeepSegments_partition[OF h, of 2] h r show ?thesis
    by (simp add: Un_commute)
qed

section \<open>Properties of removeSilences\<close>

text \<open>
  C8: when the silence list is empty, or the keep segments derived from it are, and the
  probe of the input and the copy succeed, \<^verbatim>\<open>removeSilences\<close> issues exactly the probe and
  the copy (no transcoding) and resolves with \<open>timeSaved = 0\<close>, \<open>percentageSaved = 0\<close> and
  \<open>finalDuration = originalDuration\<close>.
\<close>

theorem removeSilences_pass_through:
  assumes "input_metadata io = Inr metadata" and "copy_outcome io = Inr ()"
    and "silences = [] \<or> buildKeepSegments silences (media_duration metadata) = []"
  shows "removeSilences io inputPath' outputPath' silences =
      ([Probe inputPath', CopyFile inputPath' outputPath'],
       Inr \<lparr>outputPath = outputPath',
            originalDuration = media_duration metadata,
            finalDuration = media_duration metadata,
            timeSaved = 0,
            percentageSaved = 0,
            silencesRemoved = length silences\<rparr>)"
  using assms by (auto simp: removeSilences_def copy_result_def Let_def)

theorem removeSilences_pass_through_witness:
  "buildKeepSegments [\<lparr>start = 0, end' = 10, duration = 10\<rparr>] 10 = []
   \<and> removeSilences
        \<lparr>input_metadata = Inr \<lparr>media_duration = 10, codec = ''h264'', resolution = (1280, 720),
                                bitrate = 100000, file_size = 125000\<rparr>,
         copy_outcome = Inr (),
         transcode_outcome = Exit (Some 1) ''unused'',
         output_metadata = Inl ''unused''\<rparr>
        ''/tmp/videos/a.mp4'' ''/tmp/videos/a_cut.mp4'' [\<lparr>start = 0, end' = 10, duration = 10\<rparr>]
      = ([Probe ''/tmp/videos/a.mp4'', CopyFile ''/tmp/videos/a.mp4'' ''/tmp/videos/a_cut.mp4''],
         Inr \<lparr>outputPath = ''/tmp/videos/a_cut.mp4'', originalDuration = 10, finalDuration = 10,
              timeSaved = 0, percentageSaved = 0, silencesRemoved = 1\<rparr>)
   \<and> removeSilences
        \<lparr>input_metadata = Inr \<lparr>media_duration = 30, codec = ''h264'', resolution = (1280, 720),
                                bitrate = 100000, file_size = 375000\<rparr>,
         copy_outcome = Inr (),
         transcode_outcome = Exit (Some 1) ''unused'',
         output_metadata = Inl ''unused''\<rparr>
        ''/tmp/videos/b.mp4'' ''/tmp/videos/b_cut.mp4'' []
      = ([Probe ''/tmp/videos/b.mp4'', CopyFile ''/tmp/videos/b.mp4'' ''/tmp/videos/b_cut.mp4''],
         Inr \<lparr>outputPath = ''/tmp/videos/b_cut.mp4'', originalDuration = 30, finalDuration = 30,
              timeSaved = 0, percentageSaved = 0, silencesRemoved = 0\<rparr>)"
proof -
  let ?m1 = "\<lparr>media_duration = 10, codec = ''h264'', resolution = (1280, 720),
              bitrate = 100000, file_size = 125000\<rparr>"
  let ?io1 = "\<lparr>input_metadata = Inr ?m1, copy_outcome = Inr (),
         transcode_outcome = Exit (Some 1) ''unused'', output_metadata = Inl ''unused''\<rparr>"
  let ?m2 = "\<lparr>media_duration = 30, codec = ''h264'', resolution = (1280, 720),
              bitrate = 100000, file_size = 375000\<rparr>"
  let ?io2 = "\<lparr>input_metadata = Inr ?m2, copy_outcome = Inr (),
         transcode_outcome = Exit (Some 1) ''unused'', output_metadata = Inl ''unused''\<rparr>"
  let ?S = "[\<lparr>start = 0, end' = 10, duration = 10\<rparr>]"
  have k: "buildKeepSegments ?S 10 = []" by (simp add: buildKeepSegments_def)
  have a: "input_metadata ?io1 = Inr ?m1" "copy_outcome ?io1 = Inr ()"
    "?S = [] \<or> buildKeepSegments ?S (media_duration ?m1) = []"
    using k by simp_all
  have b: "input_metadata ?io2 = Inr ?m2" "copy_outcome ?io2 = Inr ()"
    "([] :: SilenceInterval list) = [] \<or> buildKeepSegments [] (media_duration ?m2) = []"
    by simp_all
  from removeSilences_pass_through[OF a, of "''/tmp/videos/a.mp4''" "''/tmp/videos/a_cut.mp4''"]
    removeSilences_pass_through[OF b, of "''/tmp/videos/b.mp4''" "''/tmp/videos/b_cut.mp4''"] k
  show ?thesis by simp
qed

section \<open>Pending queue and active set\<close>

lemma remove_nth_split:
  "k < length xs \<Longrightarrow> xs = take k xs @ (xs ! k) # drop (Suc k) xs"
  by (simp add: id_take_nth_drop)

lemma remove_nth_distinct_map:
  assumes "distinct (map f xs)" "k < length xs"
  shows "distinct (map f (remove_nth k xs)) \<and> f (xs ! k) \<notin> f ` set (remove_nth k xs)
    \<and> set (remove_nth k xs) \<subseteq> set xs"
proof -
  have "distinct (map f (take k xs @ (xs ! k) # drop (Suc k) xs))"
    using assms remove_nth_split[of k xs] by simp
  moreover have "set (take k xs) \<subseteq> set xs" "set (drop (Suc k) xs) \<subseteq> set xs"
    by (simp_all add: set_take_subset set_drop_subset)
  ultimately show ?thesis by (auto simp: remove_nth_def)
qed

lemma invariant_initial: "queue_invariant (initial c)"
  by (simp add: queue_invariant_def initial_def)

lemma invariant_processNext:
  assumes "queue_invariant s"
  shows "queue_invariant (processNext now s)"
proof (cases "queue s")
  case Nil
  then show ?thesis using assms by (simp add: processNext_def)
next
  case (Cons v rest)
  have d: "distinct (v # rest)" "v \<notin> processing s" "set rest \<inter> processing s = {}"
    "task_videoId ` set (tasks s) \<subseteq> processing s" "distinct (map task_videoId (tasks s))"
    using assms Cons by (auto simp: queue_invariant_def)
  have "v \<notin> task_videoId ` set (tasks s)" using d(2,4) by blast
  then show ?thesis
    using d Cons by (auto simp: processNext_def queue_invariant_def Let_def split: option.splits)
qed

lemma invariant_addJob:
  assumes "queue_invariant s" "v \<notin> set (queue s)" "v \<notin> processing s"
  shows "queue_invariant (addJob v i out now s)"
proof -
  let ?s1 = "s\<lparr>heap := heap s @ [\<lparr>job_id = v, videoId = v, inputPath = i,
                 job_outputPath = out, status = Queued, progress = 0, error = None,
                 result = None, createdAt = now, updatedAt = now, retries = 0\<rparr>],
                 jobs := AList.update v (length (heap s)) (jobs s),
                 queue := queue s @ [v]\<rparr>"
  have "queue_invariant ?s1"
    using assms by (auto simp: queue_invariant_def)
  then have "queue_invariant (processNext now ?s1)" by (rule invariant_processNext)
  then show ?thesis by (simp add: addJob_def Let_def)
qed

lemma invariant_pipeline_failed:
  assumes "queue_invariant s" "k < length (tasks s)"
  shows "queue_invariant (pipeline_failed k m now s)"
proof -
  let ?t = "tasks s ! k"
  have inv: "distinct (queue s)" "set (queue s) \<inter> processing s = {}"
    "task_videoId ` set (tasks s) \<subseteq> processing s" "distinct (map task_videoId (tasks s))"
    using assms(1) by (auto simp: queue_invariant_def)
  have r: "distinct (map task_videoId (remove_nth k (tasks s)))"
    "task_videoId ?t \<notin> task_videoId ` set (remove_nth k (tasks s))"
    "set (remove_nth k (tasks s)) \<subseteq> set (tasks s)"
    using remove_nth_distinct_map[OF inv(4) assms(2)] by auto
  have tin: "task_videoId ?t \<in> processing s"
    using inv(3) assms(2) by (meson image_subset_iff nth_mem)
  then have notq: "task_videoId ?t \<notin> set (queue s)" using inv(2) by blast
  have sub: "task_videoId ` set (remove_nth k (tasks s)) \<subseteq> processing s - {task_videoId ?t}"
    using r(2,3) inv(3) by blast
  show ?thesis
    using inv(1,2) r(1) sub notq
    by (auto simp: pipeline_failed_def queue_invariant_def Let_def split: if_splits)
qed

lemma invariant_pipeline_completed:
  assumes "queue_invariant s" "k < length (tasks s)"
  shows "queue_invariant (pipeline_completed k res now s)"
proof -
  let ?t = "tasks s ! k"
  have inv: "distinct (queue s)" "set (queue s) \<inter> processing s = {}"
    "task_videoId ` set (tasks s) \<subseteq> processing s" "distinct (map task_videoId (tasks s))"
    using assms(1) by (auto simp: queue_invariant_def)
  have r: "distinct (map task_videoId (remove_nth k (tasks s)))"
    "task_videoId ?t \<notin> task_videoId ` set (remove_nth k (tasks s))"
    "set (remove_nth k (tasks s)) \<subseteq> set (tasks s)"
    using remove_nth_distinct_map[OF inv(4) assms(2)] by auto
  have sub: "task_videoId ` set (remove_nth k (tasks s)) \<subseteq> processing s - {task_videoId ?t}"
    using r(2,3) inv(3) by blast
  show ?thesis
    using inv(1,2) r(1) sub
    by (auto simp: pipeline_completed_def queue_invariant_def Let_def)
qed

lemma map_task_videoId_update:
  "k < length ts \<Longrightarrow> map task_videoId (ts[k := (ts ! k)\<lparr>task_phase := p\<rparr>]) = map task_videoId ts"
  by (simp add: list_eq_iff_nth_eq nth_list_update)

lemma invariant_detection_settled:
  assumes "queue_invariant s"
  shows "queue_invariant (detection_settled fsub k d now s)"
proof (cases "k < length (tasks s) \<and> task_phase (tasks s ! k) = Detecting")
  case False
  then have "detection_settled fsub k d now s = s"
    unfolding detection_settled_def by (simp only: if_False)
  then show ?thesis using assms by simp
next
  case True
  show ?thesis
  proof (cases "detectSilences fsub d")
    case (Inl m)
    then show ?thesis
      using True invariant_pipeline_failed[OF assms, of k m now]
      by (simp add: detection_settled_def)
  next
    case (Inr silences)
    have m: "map task_videoId ((tasks s)[k := (tasks s ! k)\<lparr>task_phase := p\<rparr>])
        = map task_videoId (tasks s)" for p
      using True by (simp only: map_task_videoId_update)
    have img: "task_videoId ` set ((tasks s)[k := (tasks s ! k)\<lparr>task_phase := p\<rparr>])
        = task_videoId ` set (tasks s)" for p
      using m[of p] by (metis set_map)
    show ?thesis
      using True Inr assms
      by (simp add: detection_settled_def queue_invariant_def Let_def m img)
  qed
qed

lemma invariant_removal_settled:
  assumes "queue_invariant s"
  shows "queue_invariant (removal_settled k io now s)"
  using assms invariant_pipeline_failed[OF assms, of k _ now]
    invariant_pipeline_completed[OF assms, of k _ now]
  by (auto simp: removal_settled_def Let_def split: phase.splits sum.splits)

lemma invariant_cancelJob:
  assumes "queue_invariant s"
  shows "queue_invariant (cancelJob v s)"
  using assms
  by (auto simp: cancelJob_def queue_invariant_def split: option.splits dest: notin_set_remove1)

lemma invariant_clearOldJobs:
  assumes "queue_invariant s"
  shows "queue_invariant (snd (clearOldJobs a now s))"
  using assms by (simp add: clearOldJobs_def queue_invariant_def Let_def)

lemma invariant_run:
  "queue_invariant s \<Longrightarrow> fresh_submissions fsub es s \<Longrightarrow> queue_invariant (run fsub es s)"
proof (induction es arbitrary: s)
  case Nil
  then show ?case by simp
next
  case (Cons e es)
  have "queue_invariant (step fsub e s)"
  proof (cases e)
    case (AddJob v i out now)
    then show ?thesis using Cons.prems by (simp add: invariant_addJob)
  next
    case (ProcessNext now)
    then show ?thesis using Cons.prems by (simp add: invariant_processNext)
  next
    case (DetectionSettled k d now)
    then show ?thesis using Cons.prems by (simp add: invariant_detection_settled)
  next
    case (RemovalSettled k io now)
    then show ?thesis using Cons.prems by (simp add: invariant_removal_settled)
  next
    case (CancelJob v)
    then show ?thesis using Cons.prems by (simp add: invariant_cancelJob)
  next
    case (ClearOldJobs a now)
    then show ?thesis using Cons.prems by (simp add: invariant_clearOldJobs)
  qed
  then show ?case using Cons by simp
qed

text \<open>
  C1, as amended: in every state reached from the empty service by submissions, advances,
  settlements of the two pipeline phases, cancellations and sweeps, in which \<^verbatim>\<open>addJob\<close> is
  only called with an identifier that is at that moment neither pending nor active, no
  identifier is both in the pending queue and in the active set, and the pending queue has
  no duplicates.
\<close>

theorem pending_active_disjoint:
  assumes "fresh_submissions fsub es (initial c)"
  shows "distinct (queue (run fsub es (initial c)))
    \<and> (\<forall>v. \<not> (v \<in> set (queue (run fsub es (initial c))) \<and> v \<in> processing (run fsub es (initial c))))"
  using invariant_run[OF invariant_initial assms]
  by (auto simp: queue_invariant_def)

theorem pending_active_disjoint_witness:
  "fresh_submissions (-)
     [AddJob ''a'' ''/tmp/videos/a.mp4'' ''/tmp/videos/a_cut.mp4'' 0,
      AddJob ''b'' ''/tmp/videos/b.mp4'' ''/tmp/videos/b_cut.mp4'' 1,
      AddJob ''c'' ''/tmp/videos/c.mp4'' ''/tmp/videos/c_cut.mp4'' 2,
      DetectionSettled 0 (DetectSpawnError ''spawn ffmpeg EAGAIN'') 3,
      ProcessNext 4,
      CancelJob ''b'']
     (initial 2)
   \<and> queue (run (-)
     [AddJob ''a'' ''/tmp/videos/a.mp4'' ''/tmp/videos/a_cut.mp4'' 0,
      AddJob ''b'' ''/tmp/videos/b.mp4'' ''/tmp/videos/b_cut.mp4'' 1,
      AddJob ''c'' ''/tmp/videos/c.mp4'' ''/tmp/videos/c_cut.mp4'' 2,
      DetectionSettled 0 (DetectSpawnError ''spawn ffmpeg EAGAIN'') 3,
      ProcessNext 4,
      CancelJob ''b'']
     (initial 2)) = [''a'']
   \<and> processing (run (-)
     [AddJob ''a'' ''/tmp/videos/a.mp4'' ''/tmp/videos/a_cut.mp4'' 0,
      AddJob ''b'' ''/tmp/videos/b.mp4'' ''/tmp/videos/b_cut.mp4'' 1,
      AddJob ''c'' ''/tmp/videos/c.mp4'' ''/tmp/videos/c_cut.mp4'' 2,
      DetectionSettled 0 (DetectSpawnError ''spawn ffmpeg EAGAIN'') 3,
      ProcessNext 4,
      CancelJob ''b'']
     (initial 2)) = {''b'', ''c''}"
proof -
  let ?es = "[AddJob ''a'' ''/tmp/videos/a.mp4'' ''/tmp/videos/a_cut.mp4'' 0,
      AddJob ''b'' ''/tmp/videos/b.mp4'' ''/tmp/videos/b_cut.mp4'' 1,
      AddJob ''c'' ''/tmp/videos/c.mp4'' ''/tmp/videos/c_cut.mp4'' 2,
      DetectionSettled 0 (DetectSpawnError ''spawn ffmpeg EAGAIN'') 3,
      ProcessNext 4,
      CancelJob ''b'']"
  have f: "fresh_submissions (-) ?es (initial 2)"
    by (simp add: initial_def addJob_def processNext_def canAcceptNewJob_def Let_def
        detection_settled_def pipeline_failed_def isProcessingError_def remove_nth_def)
  have q: "queue (run (-) ?es (initial 2)) = [''a''] \<and> processing (run (-) ?es (initial 2)) = {''b'', ''c''}"
    by (simp add: initial_def addJob_def processNext_def canAcceptNewJob_def Let_def
        detection_settled_def pipeline_failed_def isProcessingError_def remove_nth_def
        cancelJob_def insert_Diff_if insert_commute)
  from pending_active_disjoint[OF f] f q show ?thesis by simp
qed

text \<open>
  C1 as stated fails: with the ceiling at its default 2 and the jobs \<open>a\<close> and \<open>b\<close> active,
  a second \<^verbatim>\<open>addJob\<close> for \<open>a\<close> leaves \<open>a\<close> both pending and active.
\<close>

theorem resubmission_counterexample:
  "''a'' \<in> set (queue (run (-) [AddJob ''a'' ''/tmp/videos/a.mp4'' ''/tmp/videos/a_cut.mp4'' 0,
                            AddJob ''b'' ''/tmp/videos/b.mp4'' ''/tmp/videos/b_cut.mp4'' 1,
                            AddJob ''a'' ''/tmp/videos/a.mp4'' ''/tmp/videos/a_cut.mp4'' 2]
                           (initial 2)))
   \<and> ''a'' \<in> processing (run (-) [AddJob ''a'' ''/tmp/videos/a.mp4'' ''/tmp/videos/a_cut.mp4'' 0,
                            AddJob ''b'' ''/tmp/videos/b.mp4'' ''/tmp/videos/b_cut.mp4'' 1,
                            AddJob ''a'' ''/tmp/videos/a.mp4'' ''/tmp/videos/a_cut.mp4'' 2]
                           (initial 2))"
  by (simp add: initial_def addJob_def processNext_def canAcceptNewJob_def Let_def)

section \<open>The object store\<close>

text \<open>
  In every state reached from the empty service the job object of each suspended call
  exists, so the reads and writes of \<^verbatim>\<open>job\<close> in \<^verbatim>\<open>processNext\<close> are within the store.
\<close>

lemma set_alist_update: "set (AList.update k v al) \<subseteq> insert (k, v) (set al)"
  by (induction al) auto

lemma set_alist_delete: "set (AList.delete k al) \<subseteq> set al"
  by (induction al) auto

lemma set_remove_nth: "set (remove_nth k xs) \<subseteq> set xs"
  unfolding remove_nth_def using set_take_subset[of k xs] set_drop_subset[of "Suc k" xs] by auto

lemma refs_valid_initial: "refs_valid (initial c)"
  by (simp add: refs_valid_def initial_def)

lemma refs_valid_processNext:
  assumes "refs_valid s"
  shows "refs_valid (processNext now s)"
proof (cases "queue s")
  case Nil
  then show ?thesis using assms by (simp add: processNext_def)
next
  case (Cons v rest)
  have "r < length (heap s)" if "map_of (jobs s) v = Some r" for r
    using assms map_of_SomeD[OF that] by (auto simp: refs_valid_def)
  then show ?thesis
    using assms Cons
    by (auto simp: processNext_def refs_valid_def Let_def split: option.splits)
qed

lemma refs_valid_addJob:
  assumes "refs_valid s"
  shows "refs_valid (addJob v i out now s)"
proof -
  let ?s1 = "s\<lparr>heap := heap s @ [\<lparr>job_id = v, videoId = v, inputPath = i,
                 job_outputPath = out, status = Queued, progress = 0, error = None,
                 result = None, createdAt = now, updatedAt = now, retries = 0\<rparr>],
                 jobs := AList.update v (length (heap s)) (jobs s),
                 queue := queue s @ [v]\<rparr>"
  have "refs_valid ?s1"
    using assms set_alist_update[of v "length (heap s)" "jobs s"]
    by (fastforce simp: refs_valid_def)
  then have "refs_valid (processNext now ?s1)" by (rule refs_valid_processNext)
  then show ?thesis by (simp add: addJob_def Let_def)
qed

lemma refs_valid_pipeline_failed:
  assumes "refs_valid s"
  shows "refs_valid (pipeline_failed k m now s)"
  using assms set_remove_nth[of k "tasks s"]
  by (auto simp: pipeline_failed_def refs_valid_def Let_def split: if_splits)

lemma refs_valid_pipeline_completed:
  assumes "refs_valid s"
  shows "refs_valid (pipeline_completed k res now s)"
  using assms set_remove_nth[of k "tasks s"]
  by (auto simp: pipeline_completed_def refs_valid_def Let_def)

lemma refs_valid_detection_settled:
  assumes "refs_valid s"
  shows "refs_valid (detection_settled fsub k d now s)"
proof (cases "k < length (tasks s) \<and> task_phase (tasks s ! k) = Detecting")
  case False
  then have "detection_settled fsub k d now s = s"
    unfolding detection_settled_def by (simp only: if_False)
  then show ?thesis using assms by simp
next
  case True
  show ?thesis
  proof (cases "detectSilences fsub d")
    case (Inl m)
    then show ?thesis
      using True refs_valid_pipeline_failed[OF assms, of k m now]
      by (simp add: detection_settled_def)
  next
    case (Inr silences)
    have "task_job t < length (heap s)"
      if "t \<in> set ((tasks s)[k := (tasks s ! k)\<lparr>task_phase := p\<rparr>])" for t p
    proof -
      have "t = (tasks s ! k)\<lparr>task_phase := p\<rparr> \<or> t \<in> set (tasks s)"
        using that set_update_subset_insert[of "tasks s" k] by blast
      then show ?thesis using assms True by (auto simp: refs_valid_def)
    qed
    then show ?thesis
      using True Inr assms
      by (auto simp: detection_settled_def refs_valid_def Let_def)
  qed
qed

lemma refs_valid_removal_settled:
  assumes "refs_valid s"
  shows "refs_valid (removal_settled k io now s)"
  using assms refs_valid_pipeline_failed[OF assms, of k _ now]
    refs_valid_pipeline_completed[OF assms, of k _ now]
  by (auto simp: removal_settled_def Let_def split: phase.splits sum.splits)

lemma refs_valid_cancelJob:
  assumes "refs_valid s"
  shows "refs_valid (cancelJob v s)"
  using assms set_alist_delete[of v "jobs s"]
  by (fastforce simp: cancelJob_def refs_valid_def split: option.splits)

lemma refs_valid_clearOldJobs:
  assumes "refs_valid s"
  shows "refs_valid (snd (clearOldJobs a now s))"
  using assms by (auto simp: clearOldJobs_def refs_valid_def Let_def)

lemma refs_valid_step: "refs_valid s \<Longrightarrow> refs_valid (step fsub e s)"
  by (cases e)
    (simp_all add: refs_valid_addJob refs_valid_processNext refs_valid_detection_settled
      refs_valid_removal_settled refs_valid_cancelJob refs_valid_clearOldJobs)

lemma refs_valid_run: "refs_valid s \<Longrightarrow> refs_valid (run fsub es s)"
  by (induction es arbitrary: s) (simp_all add: refs_valid_step)

lemma reachable_task_refs:
  "k < length (tasks (run fsub es (initial c))) \<Longrightarrow>
   task_job (tasks (run fsub es (initial c)) ! k) < length (heap (run fsub es (initial c)))"
  using refs_valid_run[OF refs_valid_initial, of fsub es c] by (simp add: refs_valid_def)

section \<open>Failure handling\<close>

lemma pipeline_failed_transient:
  assumes "k < length (tasks s)" and "task_job (tasks s ! k) < length (heap s)"
    and "\<not> isProcessingError errorMessage"
  shows "heap (pipeline_failed k errorMessage now s) ! task_job (tasks s ! k)
      = (if retries (heap s ! task_job (tasks s ! k)) < 1
         then (heap s ! task_job (tasks s ! k))
                \<lparr>retries := retries (heap s ! task_job (tasks s ! k)) + 1, status := Queued,
                 progress := 0, updatedAt := now\<rparr>
         else (heap s ! task_job (tasks s ! k))
                \<lparr>status := Failed, error := Some msg_max_retries, updatedAt := now\<rparr>)"
    and "queue (pipeline_failed k errorMessage now s)
      = (if retries (heap s ! task_job (tasks s ! k)) < 1
         then queue s @ [task_videoId (tasks s ! k)] else queue s)"
    and "processing (pipeline_failed k errorMessage now s)
      = processing s - {task_videoId (tasks s ! k)}"
  using assms by (simp_all add: pipeline_failed_def Let_def)

lemma pipeline_failed_permanent:
  assumes "task_job (tasks s ! k) < length (heap s)" and "isProcessingError errorMessage"
  shows "status (heap (pipeline_failed k errorMessage now s) ! task_job (tasks s ! k)) = Failed"
    and "retries (heap (pipeline_failed k errorMessage now s) ! task_job (tasks s ! k))
      = retries (heap s ! task_job (tasks s ! k))"
    and "queue (pipeline_failed k errorMessage now s) = queue s"
  using assms by (simp_all add: pipeline_failed_def Let_def)

lemma detection_message_permanent:
  "isProcessingError (''FFmpeg silence detection failed with code '' @ x)"
  by (simp add: isProcessingError_def)

text \<open>
  C5: when the pipeline of a task fails with a message that matches none of the markers,
  \<^verbatim>\<open>processNext\<close> increments the retry count, resets progress to 0, sets the status back
  to queued and appends the identifier to the pending queue if the retry count is below 1;
  otherwise it sets the status to failed with the message for repeated failure. In both
  cases the identifier leaves the active set. A rejection of either phase is handled this
  way. So the first transient failure re-queues the job with retry count 1, and the next one
  fails it.
\<close>

theorem transient_failure_retry:
  assumes "k < length (tasks s)" and "task_job (tasks s ! k) < length (heap s)"
    and "\<not> isProcessingError errorMessage"
  shows "(retries (heap s ! task_job (tasks s ! k)) < 1 \<longrightarrow>
        heap (pipeline_failed k errorMessage now s) ! task_job (tasks s ! k)
          = (heap s ! task_job (tasks s ! k))
              \<lparr>retries := retries (heap s ! task_job (tasks s ! k)) + 1, status := Queued,
               progress := 0, updatedAt := now\<rparr>
        \<and> queue (pipeline_failed k errorMessage now s) = queue s @ [task_videoId (tasks s ! k)])
    \<and> (\<not> retries (heap s ! task_job (tasks s ! k)) < 1 \<longrightarrow>
        heap (pipeline_failed k errorMessage now s) ! task_job (tasks s ! k)
          = (heap s ! task_job (tasks s ! k))
              \<lparr>status := Failed, error := Some msg_max_retries, updatedAt := now\<rparr>
        \<and> queue (pipeline_failed k errorMessage now s) = queue s)
    \<and> processing (pipeline_failed k errorMessage now s)
          = processing s - {task_videoId (tasks s ! k)}
    \<and> (task_phase (tasks s ! k) = Detecting \<and> detectSilences fsub d = Inl errorMessage \<longrightarrow>
          detection_settled fsub k d now s = pipeline_failed k errorMessage now s)
    \<and> (task_phase (tasks s ! k) = Removing silences
         \<and> snd (removeSilences io (inputPath (heap s ! task_job (tasks s ! k)))
                 (job_outputPath (heap s ! task_job (tasks s ! k))) silences) = Inl errorMessage \<longrightarrow>
          removal_settled k io now s = pipeline_failed k errorMessage now s)"
  using pipeline_failed_transient[OF assms] assms(1)
  by (simp add: detection_settled_def removal_settled_def Let_def)

theorem transient_failure_retry_witness:
  "status (heap (run (-) [AddJob ''a'' ''/tmp/videos/a.mp4'' ''/tmp/videos/a_cut.mp4'' 0,
                      DetectionSettled 0 (DetectSpawnError ''spawn ffmpeg EAGAIN'') 3]
                     (initial 2)) ! 0) = Queued
   \<and> retries (heap (run (-) [AddJob ''a'' ''/tmp/videos/a.mp4'' ''/tmp/videos/a_cut.mp4'' 0,
                      DetectionSettled 0 (DetectSpawnError ''spawn ffmpeg EAGAIN'') 3]
                     (initial 2)) ! 0) = 1
   \<and> progress (heap (run (-) [AddJob ''a'' ''/tmp/videos/a.mp4'' ''/tmp/videos/a_cut.mp4'' 0,
                      DetectionSettled 0 (DetectSpawnError ''spawn ffmpeg EAGAIN'') 3]
                     (initial 2)) ! 0) = 0
   \<and> queue (run (-) [AddJob ''a'' ''/tmp/videos/a.mp4'' ''/tmp/videos/a_cut.mp4'' 0,
                      DetectionSettled 0 (DetectSpawnError ''spawn ffmpeg EAGAIN'') 3]
                     (initial 2)) = [''a'']
   \<and> status (heap (run (-) [AddJob ''a'' ''/tmp/videos/a.mp4'' ''/tmp/videos/a_cut.mp4'' 0,
                      DetectionSettled 0 (DetectSpawnError ''spawn ffmpeg EAGAIN'') 3,
                      ProcessNext 4,
                      DetectionSettled 0 (DetectSpawnError ''spawn ffmpeg EAGAIN'') 5]
                     (initial 2)) ! 0) = Failed
   \<and> error (heap (run (-) [AddJob ''a'' ''/tmp/videos/a.mp4'' ''/tmp/videos/a_cut.mp4'' 0,
                      DetectionSettled 0 (DetectSpawnError ''spawn ffmpeg EAGAIN'') 3,
                      ProcessNext 4,
                      DetectionSettled 0 (DetectSpawnError ''spawn ffmpeg EAGAIN'') 5]
                     (initial 2)) ! 0) = Some msg_max_retries
   \<and> queue (run (-) [AddJob ''a'' ''/tmp/videos/a.mp4'' ''/tmp/videos/a_cut.mp4'' 0,
                      DetectionSettled 0 (DetectSpawnError ''spawn ffmpeg EAGAIN'') 3,
                      ProcessNext 4,
                      DetectionSettled 0 (DetectSpawnError ''spawn ffmpeg EAGAIN'') 5]
                     (initial 2)) = []"
proof -
  let ?m = "''spawn ffmpeg EAGAIN''"
  let ?a = "run (-) [AddJob ''a'' ''/tmp/videos/a.mp4'' ''/tmp/videos/a_cut.mp4'' 0] (initial 2)"
  let ?b = "run (-) [AddJob ''a'' ''/tmp/videos/a.mp4'' ''/tmp/videos/a_cut.mp4'' 0,
                 DetectionSettled 0 (DetectSpawnError ?m) 3, ProcessNext 4] (initial 2)"
  have m: "\<not> isProcessingError ?m" by (simp add: isProcessingError_def)
  have a: "0 < length (tasks ?a)" "task_job (tasks ?a ! 0) < length (heap ?a)"
    "retries (heap ?a ! task_job (tasks ?a ! 0)) < 1"
    "task_phase (tasks ?a ! 0) = Detecting"
    by (simp_all add: initial_def addJob_def processNext_def canAcceptNewJob_def Let_def)
  have b: "0 < length (tasks ?b)" "task_job (tasks ?b ! 0) < length (heap ?b)"
    "\<not> retries (heap ?b ! task_job (tasks ?b ! 0)) < 1"
    "task_phase (tasks ?b ! 0) = Detecting"
    by (simp_all add: initial_def addJob_def processNext_def canAcceptNewJob_def Let_def
        detection_settled_def pipeline_failed_def m remove_nth_def)
  note ta = transient_failure_retry[OF a(1,2) m, where now = 3 and d = "DetectSpawnError ?m"]
  note tb = transient_failure_retry[OF b(1,2) m, where now = 5 and d = "DetectSpawnError ?m"]
  have ra: "run (-) [AddJob ''a'' ''/tmp/videos/a.mp4'' ''/tmp/videos/a_cut.mp4'' 0,
                 DetectionSettled 0 (DetectSpawnError ?m) 3] (initial 2)
      = pipeline_failed 0 ?m 3 ?a"
    using ta a(4) by simp
  have rb: "run (-) [AddJob ''a'' ''/tmp/videos/a.mp4'' ''/tmp/videos/a_cut.mp4'' 0,
                 DetectionSettled 0 (DetectSpawnError ?m) 3, ProcessNext 4,
                 DetectionSettled 0 (DetectSpawnError ?m) 5] (initial 2)
      = pipeline_failed 0 ?m 5 ?b"
    using tb b(4) by simp
  have ja: "task_job (tasks ?a ! 0) = 0" "queue ?a = []" "task_videoId (tasks ?a ! 0) = ''a''"
    by (simp_all add: initial_def addJob_def processNext_def canAcceptNewJob_def Let_def)
  have jb: "task_job (tasks ?b ! 0) = 0" "queue ?b = []"
    by (simp_all add: initial_def addJob_def processNext_def canAcceptNewJob_def Let_def
        detection_settled_def pipeline_failed_def m remove_nth_def)
  show ?thesis
    unfolding ra rb using ta tb a(3) b(3) ja jb by simp
qed

text \<open>
  C6, as amended: a detection that ends with an exit status other than 0 rejects with the
  fixed message \<^verbatim>\<open>FFmpeg silence detection failed with code N\<close>, which matches a
  permanent marker whatever the diagnostic stream holds, so the job is marked failed at
  once, its retry count and the pending queue unchanged. Every rejection of the detection
  whose message contains one of the six markers (\<^verbatim>\<open>FFmpeg\<close>, \<^verbatim>\<open>memory\<close>,
  \<^verbatim>\<open>timeout\<close>, \<^verbatim>\<open>failed\<close>, \<^verbatim>\<open>ENOMEM\<close>, \<^verbatim>\<open>killed\<close>) is handled in the same way.
  A rejection whose message contains none of them (the process could not be started) is
  transient: the job is re-queued with its retry count incremented while that count is
  below 1, and marked failed with the message for repeated failure otherwise.
\<close>

theorem detection_failure_classification:
  assumes "k < length (tasks s)" and "task_phase (tasks s ! k) = Detecting"
    and "task_job (tasks s ! k) < length (heap s)"
  shows "(code \<noteq> Some 0 \<longrightarrow>
        detectSilences fsub (DetectExit code starts ends)
          = Inl (''FFmpeg silence detection failed with code '' @ show_code code)
        \<and> str_includes (''FFmpeg silence detection failed with code '' @ show_code code) ''FFmpeg''
        \<and> status (heap (detection_settled fsub k (DetectExit code starts ends) now s)
                    ! task_job (tasks s ! k)) = Failed
        \<and> retries (heap (detection_settled fsub k (DetectExit code starts ends) now s)
                    ! task_job (tasks s ! k)) = retries (heap s ! task_job (tasks s ! k))
        \<and> queue (detection_settled fsub k (DetectExit code starts ends) now s) = queue s)
    \<and> (detectSilences fsub d = Inl e
        \<and> (str_includes e ''FFmpeg'' \<or> str_includes e ''memory'' \<or> str_includes e ''timeout''
           \<or> str_includes e ''failed'' \<or> str_includes e ''ENOMEM'' \<or> str_includes e ''killed'') \<longrightarrow>
        status (heap (detection_settled fsub k d now s) ! task_job (tasks s ! k)) = Failed
        \<and> retries (heap (detection_settled fsub k d now s) ! task_job (tasks s ! k))
            = retries (heap s ! task_job (tasks s ! k))
        \<and> queue (detection_settled fsub k d now s) = queue s)
    \<and> (detectSilences fsub d = Inl e
        \<and> \<not> (str_includes e ''FFmpeg'' \<or> str_includes e ''memory'' \<or> str_includes e ''timeout''
           \<or> str_includes e ''failed'' \<or> str_includes e ''ENOMEM'' \<or> str_includes e ''killed'')
        \<and> retries (heap s ! task_job (tasks s ! k)) < 1 \<longrightarrow>
        status (heap (detection_settled fsub k d now s) ! task_job (tasks s ! k)) = Queued
        \<and> retries (heap (detection_settled fsub k d now s) ! task_job (tasks s ! k))
            = retries (heap s ! task_job (tasks s ! k)) + 1
        \<and> queue (detection_settled fsub k d now s) = queue s @ [task_videoId (tasks s ! k)])
    \<and> (detectSilences fsub d = Inl e
        \<and> \<not> (str_includes e ''FFmpeg'' \<or> str_includes e ''memory'' \<or> str_includes e ''timeout''
           \<or> str_includes e ''failed'' \<or> str_includes e ''ENOMEM'' \<or> str_includes e ''killed'')
        \<and> \<not> retries (heap s ! task_job (tasks s ! k)) < 1 \<longrightarrow>
        status (heap (detection_settled fsub k d now s) ! task_job (tasks s ! k)) = Failed
        \<and> error (heap (detection_settled fsub k d now s) ! task_job (tasks s ! k))
            = Some msg_max_retries
        \<and> queue (detection_settled fsub k d now s) = queue s)"
proof -
  let ?m = "''FFmpeg silence detection failed with code '' @ show_code code"
  let ?r = "task_job (tasks s ! k)"
  have p: "isProcessingError ?m" by (rule detection_message_permanent)
  have f: "str_includes ?m ''FFmpeg''" by simp
  have 1: "code \<noteq> Some 0 \<Longrightarrow>
      detection_settled fsub k (DetectExit code starts ends) now s = pipeline_failed k ?m now s"
    using assms(1,2) by (simp add: detection_settled_def)
  have 2: "detection_settled fsub k d now s = pipeline_failed k e now s"
    if "detectSilences fsub d = Inl e"
    using assms(1,2) that by (simp add: detection_settled_def)
  have a: "code \<noteq> Some 0 \<longrightarrow>
        detectSilences fsub (DetectExit code starts ends) = Inl ?m
        \<and> str_includes ?m ''FFmpeg''
        \<and> status (heap (detection_settled fsub k (DetectExit code starts ends) now s) ! ?r) = Failed
        \<and> retries (heap (detection_settled fsub k (DetectExit code starts ends) now s) ! ?r)
            = retries (heap s ! ?r)
        \<and> queue (detection_settled fsub k (DetectExit code starts ends) now s) = queue s"
    using 1 f pipeline_failed_permanent[OF assms(3) p, of now] by simp
  have b: "status (heap (detection_settled fsub k d now s) ! ?r) = Failed
        \<and> retries (heap (detection_settled fsub k d now s) ! ?r) = retries (heap s ! ?r)
        \<and> queue (detection_settled fsub k d now s) = queue s"
    if "detectSilences fsub d = Inl e" "isProcessingError e"
    using 2[OF that(1)] pipeline_failed_permanent[OF assms(3) that(2), of now] by simp
  have c: "status (heap (detection_settled fsub k d now s) ! ?r) = Queued
        \<and> retries (heap (detection_settled fsub k d now s) ! ?r) = retries (heap s ! ?r) + 1
        \<and> queue (detection_settled fsub k d now s) = queue s @ [task_videoId (tasks s ! k)]"
    if "detectSilences fsub d = Inl e" "\<not> isProcessingError e" "retries (heap s ! ?r) < 1"
    using 2[OF that(1)] pipeline_failed_transient[OF assms(1,3) that(2), of now] that(3) by simp
  have d: "status (heap (detection_settled fsub k d now s) ! ?r) = Failed
        \<and> error (heap (detection_settled fsub k d now s) ! ?r) = Some msg_max_retries
        \<and> queue (detection_settled fsub k d now s) = queue s"
    if "detectSilences fsub d = Inl e" "\<not> isProcessingError e" "\<not> retries (heap s ! ?r) < 1"
    using 2[OF that(1)] pipeline_failed_transient[OF assms(1,3) that(2), of now] that(3) by simp
  show ?thesis
    using a b c d unfolding isProcessingError_def by blast
qed

theorem detection_failure_classification_witness:
  "status (heap (run (-) [AddJob ''a'' ''/tmp/videos/a.mp4'' ''/tmp/videos/a_cut.mp4'' 0,
                      DetectionSettled 0 (DetectExit (Some 1) [] []) 3] (initial 2)) ! 0) = Failed
   \<and> queue (run (-) [AddJob ''a'' ''/tmp/videos/a.mp4'' ''/tmp/videos/a_cut.mp4'' 0,
                 DetectionSettled 0 (DetectExit (Some 1) [] []) 3] (initial 2)) = []
   \<and> status (heap (run (-) [AddJob ''a'' ''/tmp/videos/a.mp4'' ''/tmp/videos/a_cut.mp4'' 0,
                      DetectionSettled 0 (DetectSpawnError ''spawn ENOMEM'') 3]
                     (initial 2)) ! 0) = Failed
   \<and> queue (run (-) [AddJob ''a'' ''/tmp/videos/a.mp4'' ''/tmp/videos/a_cut.mp4'' 0,
                 DetectionSettled 0 (DetectSpawnError ''spawn ENOMEM'') 3] (initial 2)) = []
   \<and> status (heap (run (-) [AddJob ''a'' ''/tmp/videos/a.mp4'' ''/tmp/videos/a_cut.mp4'' 0,
                      DetectionSettled 0 (DetectSpawnError ''spawn ffmpeg EAGAIN'') 3]
                     (initial 2)) ! 0) = Queued
   \<and> queue (run (-) [AddJob ''a'' ''/tmp/videos/a.mp4'' ''/tmp/videos/a_cut.mp4'' 0,
                 DetectionSettled 0 (DetectSpawnError ''spawn ffmpeg EAGAIN'') 3]
                (initial 2)) = [''a'']
   \<and> status (heap (run (-) [AddJob ''a'' ''/tmp/videos/a.mp4'' ''/tmp/videos/a_cut.mp4'' 0,
                      DetectionSettled 0 (DetectSpawnError ''spawn ffmpeg EAGAIN'') 3,
                      ProcessNext 4,
                      DetectionSettled 0 (DetectSpawnError ''spawn ffmpeg EAGAIN'') 5]
                     (initial 2)) ! 0) = Failed
   \<and> queue (run (-) [AddJob ''a'' ''/tmp/videos/a.mp4'' ''/tmp/videos/a_cut.mp4'' 0,
                 DetectionSettled 0 (DetectSpawnError ''spawn ffmpeg EAGAIN'') 3,
                 ProcessNext 4,
                 DetectionSettled 0 (DetectSpawnError ''spawn ffmpeg EAGAIN'') 5]
                (initial 2)) = []"
proof -
  let ?m = "''spawn ffmpeg EAGAIN''"
  let ?n = "''spawn ENOMEM''"
  let ?a = "run (-) [AddJob ''a'' ''/tmp/videos/a.mp4'' ''/tmp/videos/a_cut.mp4'' 0] (initial 2)"
  let ?b = "run (-) [AddJob ''a'' ''/tmp/videos/a.mp4'' ''/tmp/videos/a_cut.mp4'' 0,
                 DetectionSettled 0 (DetectSpawnError ?m) 3, ProcessNext 4] (initial 2)"
  have m: "\<not> (str_includes ?m ''FFmpeg'' \<or> str_includes ?m ''memory'' \<or> str_includes ?m ''timeout''
           \<or> str_includes ?m ''failed'' \<or> str_includes ?m ''ENOMEM'' \<or> str_includes ?m ''killed'')"
    by simp
  have n: "str_includes ?n ''FFmpeg'' \<or> str_includes ?n ''memory'' \<or> str_includes ?n ''timeout''
           \<or> str_includes ?n ''failed'' \<or> str_includes ?n ''ENOMEM'' \<or> str_includes ?n ''killed''"
    by simp
  have a: "0 < length (tasks ?a)" "task_phase (tasks ?a ! 0) = Detecting"
    "task_job (tasks ?a ! 0) < length (heap ?a)"
    by (simp_all add: initial_def addJob_def processNext_def canAcceptNewJob_def Let_def)
  have ra: "retries (heap ?a ! task_job (tasks ?a ! 0)) < 1" "Some (1::int) \<noteq> Some 0"
    "task_job (tasks ?a ! 0) = 0" "queue ?a = []" "task_videoId (tasks ?a ! 0) = ''a''"
    by (simp_all add: initial_def addJob_def processNext_def canAcceptNewJob_def Let_def)
  have b: "0 < length (tasks ?b)" "task_phase (tasks ?b ! 0) = Detecting"
    "task_job (tasks ?b ! 0) < length (heap ?b)"
    by (simp_all add: initial_def addJob_def processNext_def canAcceptNewJob_def Let_def
        detection_settled_def pipeline_failed_def isProcessingError_def remove_nth_def)
  have rb: "\<not> retries (heap ?b ! task_job (tasks ?b ! 0)) < 1"
    "task_job (tasks ?b ! 0) = 0" "queue ?b = []"
    by (simp_all add: initial_def addJob_def processNext_def canAcceptNewJob_def Let_def
        detection_settled_def pipeline_failed_def isProcessingError_def remove_nth_def)
  note t1 = detection_failure_classification[OF a, where fsub = "(-)" and code = "Some 1"
      and starts = "[]" and ends = "[]" and now = 3 and d = "DetectSpawnError ?m" and e = ?m]
  note t2 = detection_failure_classification[OF a, where fsub = "(-)" and code = "Some 1"
      and starts = "[]" and ends = "[]" and now = 3 and d = "DetectSpawnError ?n" and e = ?n]
  note t3 = detection_failure_classification[OF b, where fsub = "(-)" and code = "Some 1"
      and starts = "[]" and ends = "[]" and now = 5 and d = "DetectSpawnError ?m" and e = ?m]
  have d: "detectSilences (-) (DetectSpawnError ?m) = Inl ?m"
    "detectSilences (-) (DetectSpawnError ?n) = Inl ?n"
    by simp_all
  show ?thesis using t1 t2 t3 m n d ra rb by simp
qed

text \<open>
  C6 as stated fails: a first detection that exits with status 1 and an empty diagnostic
  stream leaves the job failed, with retry count 0 and nothing pending.
\<close>

theorem detection_exit_failure_counterexample:
  "job_status_of (run (-) [AddJob ''a'' ''/tmp/videos/a.mp4'' ''/tmp/videos/a_cut.mp4'' 0,
                       DetectionSettled 0 (DetectExit (Some 1) [] []) 3] (initial 2)) ''a''
     = Some Failed
   \<and> retries (heap (run (-) [AddJob ''a'' ''/tmp/videos/a.mp4'' ''/tmp/videos/a_cut.mp4'' 0,
                       DetectionSettled 0 (DetectExit (Some 1) [] []) 3] (initial 2)) ! 0) = 0
   \<and> queue (run (-) [AddJob ''a'' ''/tmp/videos/a.mp4'' ''/tmp/videos/a_cut.mp4'' 0,
                 DetectionSettled 0 (DetectExit (Some 1) [] []) 3] (initial 2)) = []"
  by (simp add: job_status_of_def initial_def addJob_def processNext_def canAcceptNewJob_def
      Let_def detection_settled_def pipeline_failed_def isProcessingError_def remove_nth_def)

section \<open>Admission\<close>

lemma run_append: "run fsub (es @ fs) s = run fsub fs (run fsub es s)"
  by (induction es arbitrary: s) simp_all

lemma alist_update_fresh: "k \<notin> fst ` set al \<Longrightarrow> AList.update k v al = al @ [(k, v)]"
  by (induction al) auto

lemma map_of_append_fresh: "k \<notin> fst ` set al \<Longrightarrow> map_of (al @ [(k, v)]) k = Some v"
  by (induction al) auto

lemma addJob_waiting:
  assumes "\<not> canAcceptNewJob s" and "v \<notin> fst ` set (jobs s)"
  shows "addJob v i out now s
    = s\<lparr>heap := heap s @ [new_job v i out now],
         jobs := jobs s @ [(v, length (heap s))],
         queue := queue s @ [v]\<rparr>"
  using assms
  by (simp add: addJob_def processNext_def canAcceptNewJob_def Let_def alist_update_fresh new_job_def)

lemma addJob_dropped:
  assumes "canAcceptNewJob s" and "queue s = []" and "[] \<notin> fst ` set (jobs s)"
  shows "addJob [] i out now s
    = s\<lparr>heap := heap s @ [new_job [] i out now],
         jobs := jobs s @ [([], length (heap s))],
         queue := []\<rparr>"
  using assms
  by (simp add: addJob_def processNext_def canAcceptNewJob_def Let_def alist_update_fresh new_job_def)

lemma addJob_admitted:
  assumes "canAcceptNewJob s" and "queue s = []" and "v \<notin> fst ` set (jobs s)" and "v \<noteq> []"
  shows "addJob v i out now s
    = s\<lparr>heap := heap s @ [(new_job v i out now)\<lparr>status := Processing, progress := 10,
                                                 updatedAt := now\<rparr>],
         jobs := jobs s @ [(v, length (heap s))],
         queue := [],
         processing := insert v (processing s),
         tasks := tasks s @ [\<lparr>task_videoId = v, task_job = length (heap s),
                               task_phase = Detecting\<rparr>]\<rparr>"
proof -
  have "map_of (jobs s) v = None" using assms(3) by (simp add: map_of_eq_None_iff)
  then show ?thesis
    using assms
    by (simp add: addJob_def processNext_def canAcceptNewJob_def Let_def alist_update_fresh
        map_add_def new_job_def)
qed

lemma submissions_below_ceiling:
  assumes "distinct (map fst subs)" and "length subs \<le> C"
  shows "queue (run fsub (map submit subs) (initial (int C))) = []
    \<and> processing (run fsub (map submit subs) (initial (int C))) = set (map fst subs) - {[]}
    \<and> map fst (jobs (run fsub (map submit subs) (initial (int C)))) = map fst subs
    \<and> maxConcurrentJobs (run fsub (map submit subs) (initial (int C))) = int C
    \<and> (\<forall>(v, r) \<in> set (jobs (run fsub (map submit subs) (initial (int C)))).
          r < length (heap (run fsub (map submit subs) (initial (int C))))
          \<and> status (heap (run fsub (map submit subs) (initial (int C))) ! r)
              = (if v = [] then Queued else Processing))"
  using assms
proof (induction subs rule: rev_induct)
  case Nil
  show ?case by (simp add: initial_def)
next
  case (snoc x subs)
  obtain v i out now where x: "x = (v, i, out, now)" by (cases x) auto
  let ?s = "run fsub (map submit subs) (initial (int C))"
  have d: "distinct (map fst subs)" "v \<notin> set (map fst subs)" "length subs < C"
    using snoc.prems x by auto
  from snoc.IH[OF d(1)] d(3)
  have q: "queue ?s = []" and p: "processing ?s = set (map fst subs) - {[]}"
    and j: "map fst (jobs ?s) = map fst subs" and m: "maxConcurrentJobs ?s = int C"
    and st: "\<forall>(v, r) \<in> set (jobs ?s). r < length (heap ?s)
          \<and> status (heap ?s ! r) = (if v = [] then Queued else Processing)"
    by simp_all
  have "card (processing ?s) \<le> card (set (map fst subs))"
    unfolding p by (intro card_mono) auto
  also have "\<dots> \<le> length subs" using card_length[of "map fst subs"] by simp
  finally have acc: "canAcceptNewJob ?s" using d(3) m by (simp add: canAcceptNewJob_def)
  have fresh: "v \<notin> fst ` set (jobs ?s)" using d(2) j by (metis set_map)
  have r: "run fsub (map submit (subs @ [x])) (initial (int C)) = addJob v i out now ?s"
    by (simp add: run_append submit_def x)
  show ?case
  proof (cases "v = []")
    case True
    have e: "addJob v i out now ?s = ?s\<lparr>heap := heap ?s @ [new_job [] i out now],
         jobs := jobs ?s @ [([], length (heap ?s))], queue := []\<rparr>"
      using addJob_dropped[OF acc q] fresh True by simp
    show ?thesis
      unfolding r e using q p j m st True x
      by (auto simp: nth_append new_job_def)
  next
    case False
    have e: "addJob v i out now ?s = ?s\<lparr>heap := heap ?s @ [(new_job v i out now)\<lparr>status := Processing, progress := 10,
                                                 updatedAt := now\<rparr>],
         jobs := jobs ?s @ [(v, length (heap ?s))],
         queue := [],
         processing := insert v (processing ?s),
         tasks := tasks ?s @ [\<lparr>task_videoId = v, task_job = length (heap ?s),
                               task_phase = Detecting\<rparr>]\<rparr>"
      by (rule addJob_admitted[OF acc q fresh False])
    show ?thesis
      unfolding r e using q p j m st False x
      by (auto simp: nth_append new_job_def)
  qed
qed

lemma status_lookup:
  assumes "\<forall>(w, r) \<in> set (jobs s). status (heap s ! r) = f w" and "w \<in> fst ` set (jobs s)"
  shows "job_status_of s w = Some (f w)"
proof -
  obtain r where r: "map_of (jobs s) w = Some r"
    using assms(2) by (cases "map_of (jobs s) w") (auto simp: map_of_eq_None_iff)
  then have "(w, r) \<in> set (jobs s)" by (rule map_of_SomeD)
  then have "status (heap s ! r) = f w" using assms(1) by auto
  then show ?thesis using r by (simp add: job_status_of_def)
qed

lemma count_single:
  "distinct xs \<Longrightarrow> q \<in> set xs \<Longrightarrow> length (filter (\<lambda>v. v = q) xs) = 1"
  by (induction xs) (auto simp: filter_empty_conv)

lemma count_others:
  assumes "distinct xs" "q \<in> set xs"
  shows "length (filter (\<lambda>v. v \<noteq> q) xs) = length xs - 1"
  using sum_length_filter_compl[of "\<lambda>v. v = q" xs] count_single[OF assms] by simp

lemma submissions_above_ceiling:
  assumes "distinct (map fst subs)" and "length subs = C + 1"
  shows "\<exists>q \<in> set (map fst subs).
      (\<forall>v \<in> set (map fst subs).
         job_status_of (run fsub (map submit subs) (initial (int C))) v
           = Some (if v = q then Queued else Processing))
      \<and> map fst (jobs (run fsub (map submit subs) (initial (int C)))) = map fst subs"
proof -
  obtain xs x where sx: "subs = xs @ [x]"
    using assms(2) by (cases subs rule: rev_cases) auto
  obtain v i out now where x: "x = (v, i, out, now)" by (cases x) auto
  let ?s = "run fsub (map submit xs) (initial (int C))"
  let ?ids = "map fst xs"
  have d: "distinct ?ids" "v \<notin> set ?ids" "length xs = C"
    using assms sx x by auto
  from submissions_below_ceiling[OF d(1), of C] d(3)
  have q: "queue ?s = []" and p: "processing ?s = set ?ids - {[]}"
    and j: "map fst (jobs ?s) = ?ids" and m: "maxConcurrentJobs ?s = int C"
    and st: "\<forall>(v, r) \<in> set (jobs ?s). r < length (heap ?s)
          \<and> status (heap ?s ! r) = (if v = [] then Queued else Processing)"
    by simp_all
  have fresh: "v \<notin> fst ` set (jobs ?s)" using d(2) j by (metis set_map)
  have r: "run fsub (map submit subs) (initial (int C)) = addJob v i out now ?s"
    by (simp add: run_append submit_def x sx)
  have ids: "map fst subs = ?ids @ [v]" by (simp add: sx x)
  show ?thesis
  proof (cases "[] \<in> set ?ids")
    case False
    then have "card (processing ?s) = C"
      using p d(1,3) distinct_card[of ?ids] by simp
    then have full: "\<not> canAcceptNewJob ?s" using m by (simp add: canAcceptNewJob_def)
    define t where "t = addJob v i out now ?s"
    have ht: "heap t = heap ?s @ [new_job v i out now]"
      "jobs t = jobs ?s @ [(v, length (heap ?s))]"
      unfolding t_def addJob_waiting[OF full fresh] by simp_all
    have old: "status (heap t ! r) = (if w = v then Queued else Processing)"
      if "(w, r) \<in> set (jobs ?s)" for w r
    proof -
      have "w \<in> set ?ids" using that j by (metis fst_conv image_eqI set_map)
      then have "w \<noteq> []" "w \<noteq> v" using False d(2) by blast+
      moreover have "r < length (heap ?s)" "status (heap ?s ! r) = (if w = [] then Queued else Processing)"
        using st that by auto
      ultimately show ?thesis by (simp add: ht nth_append)
    qed
    have new: "status (heap t ! length (heap ?s)) = Queued"
      by (simp add: ht new_job_def)
    have all: "\<forall>(w, r) \<in> set (jobs t). status (heap t ! r) = (if w = v then Queued else Processing)"
      using old new by (auto simp: ht)
    have jm: "map fst (jobs t) = map fst subs" using j ids by (simp add: ht)
    have keys: "fst ` set (jobs t) = set (map fst subs)"
      using arg_cong[OF jm, of set] by (simp only: set_map)
    have "\<forall>w \<in> set (map fst subs). job_status_of t w = Some (if w = v then Queued else Processing)"
      using status_lookup[OF all] unfolding keys by blast
    moreover have "v \<in> set (map fst subs)" by (simp add: ids)
    ultimately show ?thesis unfolding r t_def[symmetric] using jm by blast
  next
    case True
    then have vne: "v \<noteq> []" using d(2) by auto
    have "card (processing ?s) = C - 1"
      using p d(1,3) True distinct_card[of ?ids] by simp
    moreover have "0 < C" using True d(3) by (cases xs) auto
    ultimately have acc: "canAcceptNewJob ?s" using m by (simp add: canAcceptNewJob_def)
    define t where "t = addJob v i out now ?s"
    have ht: "heap t = heap ?s @ [(new_job v i out now)\<lparr>status := Processing, progress := 10,
                                                 updatedAt := now\<rparr>]"
      "jobs t = jobs ?s @ [(v, length (heap ?s))]"
      unfolding t_def addJob_admitted[OF acc q fresh vne] by simp_all
    have old: "status (heap t ! r) = (if w = [] then Queued else Processing)"
      if "(w, r) \<in> set (jobs ?s)" for w r
    proof -
      have "r < length (heap ?s)" "status (heap ?s ! r) = (if w = [] then Queued else Processing)"
        using st that by auto
      then show ?thesis by (simp add: ht nth_append)
    qed
    have new: "status (heap t ! length (heap ?s)) = Processing"
      by (simp add: ht new_job_def)
    have all: "\<forall>(w, r) \<in> set (jobs t). status (heap t ! r) = (if w = [] then Queued else Processing)"
      using old new vne by (auto simp: ht)
    have jm: "map fst (jobs t) = map fst subs" using j ids by (simp add: ht)
    have keys: "fst ` set (jobs t) = set (map fst subs)"
      using arg_cong[OF jm, of set] by (simp only: set_map)
    have "\<forall>w \<in> set (map fst subs). job_status_of t w = Some (if w = [] then Queued else Processing)"
      using status_lookup[OF all] unfolding keys by blast
    moreover have "[] \<in> set (map fst subs)" using True by (simp add: ids)
    ultimately show ?thesis unfolding r t_def[symmetric] using jm by blast
  qed
qed

text \<open>
  C7: \<^verbatim>\<open>canAcceptNewJob\<close> holds exactly when the active set is smaller than the ceiling;
  and after \<open>C + 1\<close> submissions with pairwise different identifiers to an empty service
  with ceiling \<open>C\<close>, none of them settled, exactly \<open>C\<close> of the jobs are processing and the
  remaining one is queued.
\<close>

theorem admission_ceiling:
  assumes "distinct (map fst subs)" and "length subs = C + 1"
  shows "(canAcceptNewJob s \<longleftrightarrow> int (card (processing s)) < maxConcurrentJobs s)
    \<and> length (filter (\<lambda>v. job_status_of (run fsub (map submit subs) (initial (int C))) v
                              = Some Processing) (map fst subs)) = C
    \<and> length (filter (\<lambda>v. job_status_of (run fsub (map submit subs) (initial (int C))) v
                              = Some Queued) (map fst subs)) = 1
    \<and> map fst (jobs (run fsub (map submit subs) (initial (int C)))) = map fst subs"
proof -
  let ?s = "run fsub (map submit subs) (initial (int C))"
  let ?ids = "map fst subs"
  obtain q where q: "q \<in> set ?ids"
    and st: "\<forall>v \<in> set ?ids. job_status_of ?s v = Some (if v = q then Queued else Processing)"
    and j: "map fst (jobs ?s) = ?ids"
    using submissions_above_ceiling[OF assms] by blast
  have st': "job_status_of ?s v = Some (if v = q then Queued else Processing)"
    if "v \<in> set ?ids" for v
    using st that by blast
  have "filter (\<lambda>v. job_status_of ?s v = Some Processing) ?ids = filter (\<lambda>v. v \<noteq> q) ?ids"
  proof (rule filter_cong[OF refl])
    fix v assume "v \<in> set ?ids"
    from st'[OF this] show "(job_status_of ?s v = Some Processing) = (v \<noteq> q)" by simp
  qed
  then have 1: "length (filter (\<lambda>v. job_status_of ?s v = Some Processing) ?ids) = C"
    using count_others[OF assms(1) q] assms(2) by simp
  have "filter (\<lambda>v. job_status_of ?s v = Some Queued) ?ids = filter (\<lambda>v. v = q) ?ids"
  proof (rule filter_cong[OF refl])
    fix v assume "v \<in> set ?ids"
    from st'[OF this] show "(job_status_of ?s v = Some Queued) = (v = q)" by simp
  qed
  then have 2: "length (filter (\<lambda>v. job_status_of ?s v = Some Queued) ?ids) = 1"
    using count_single[OF assms(1) q] by simp
  show ?thesis using 1 2 j by (simp add: canAcceptNewJob_def)
qed

theorem admission_ceiling_witness:
  "distinct (map fst [(''a'', ''/tmp/videos/a.mp4'', ''/tmp/videos/a_cut.mp4'', 0::int),
                      (''b'', ''/tmp/videos/b.mp4'', ''/tmp/videos/b_cut.mp4'', 1),
                      (''c'', ''/tmp/videos/c.mp4'', ''/tmp/videos/c_cut.mp4'', 2)])
   \<and> length [(''a'', ''/tmp/videos/a.mp4'', ''/tmp/videos/a_cut.mp4'', 0::int),
              (''b'', ''/tmp/videos/b.mp4'', ''/tmp/videos/b_cut.mp4'', 1),
              (''c'', ''/tmp/videos/c.mp4'', ''/tmp/videos/c_cut.mp4'', 2)] = 2 + 1
   \<and> canAcceptNewJob (initial 2)
   \<and> \<not> canAcceptNewJob
        (run (-) (map submit [(''a'', ''/tmp/videos/a.mp4'', ''/tmp/videos/a_cut.mp4'', 0),
                          (''b'', ''/tmp/videos/b.mp4'', ''/tmp/videos/b_cut.mp4'', 1),
                          (''c'', ''/tmp/videos/c.mp4'', ''/tmp/videos/c_cut.mp4'', 2)])
             (initial 2))
   \<and> map (job_status_of
        (run (-) (map submit [(''a'', ''/tmp/videos/a.mp4'', ''/tmp/videos/a_cut.mp4'', 0),
                          (''b'', ''/tmp/videos/b.mp4'', ''/tmp/videos/b_cut.mp4'', 1),
                          (''c'', ''/tmp/videos/c.mp4'', ''/tmp/videos/c_cut.mp4'', 2)])
             (initial 2))) [''a'', ''b'', ''c'']
      = [Some Processing, Some Processing, Some Queued]
   \<and> length (filter (\<lambda>v. job_status_of
        (run (-) (map submit [(''a'', ''/tmp/videos/a.mp4'', ''/tmp/videos/a_cut.mp4'', 0),
                          (''b'', ''/tmp/videos/b.mp4'', ''/tmp/videos/b_cut.mp4'', 1),
                          (''c'', ''/tmp/videos/c.mp4'', ''/tmp/videos/c_cut.mp4'', 2)])
             (initial 2)) v = Some Processing) [''a'', ''b'', ''c'']) = 2"
proof -
  let ?subs = "[(''a'', ''/tmp/videos/a.mp4'', ''/tmp/videos/a_cut.mp4'', 0::int),
                (''b'', ''/tmp/videos/b.mp4'', ''/tmp/videos/b_cut.mp4'', 1),
                (''c'', ''/tmp/videos/c.mp4'', ''/tmp/videos/c_cut.mp4'', 2)]"
  have h: "distinct (map fst ?subs)" "length ?subs = 2 + 1" by simp_all
  have c: "canAcceptNewJob (initial 2)" by (simp add: canAcceptNewJob_def initial_def)
  have e: "\<not> canAcceptNewJob (run (-) (map submit ?subs) (initial 2))
     \<and> map (job_status_of (run (-) (map submit ?subs) (initial 2))) [''a'', ''b'', ''c'']
          = [Some Processing, Some Processing, Some Queued]"
    by (simp add: submit_def job_status_of_def initial_def addJob_def processNext_def
        canAcceptNewJob_def Let_def)
  from admission_ceiling[OF h, of "initial 2"] h c e show ?thesis by simp
qed

end
